theory Spec2Isabelle
  imports Main "HOL-Library.Sublist"
begin

section \<open>Python values used by \<open>src/api/extract.py\<close>\<close>

text \<open>
  A Python \<open>str\<close> is a sequence of Unicode code points and \<open>bytes\<close> a sequence of
  octets; both are lists of naturals here. \<open>u\<close> turns an ASCII literal into a \<open>str\<close>.
  The operator \<open>sub in s\<close> on strings is \<^const>\<open>sublist\<close> (a contiguous occurrence).
\<close>

type_synonym str = "nat list"

type_synonym bytes = "nat list"

definition u :: "string \<Rightarrow> str" where
  "u s = map of_char s"

definition NL :: nat where
  "NL = 10"

definition EQ :: nat where
  "EQ = 61"

definition RPAREN :: nat where
  "RPAREN = 41"

subsection \<open>\<open>str.strip\<close>, \<open>str.split\<close>, \<open>str.join\<close>\<close>

text \<open>
  \<open>str.strip()\<close> without argument removes leading and trailing whitespace, where
  whitespace is what \<open>str.isspace\<close> accepts: U+0009..U+000D, U+001C..U+0020, U+0085,
  U+00A0, U+1680, U+2000..U+200A, U+2028, U+2029, U+202F, U+205F and U+3000.
\<close>

definition isspace :: "nat \<Rightarrow> bool" where
  "isspace c \<longleftrightarrow>
     (0x09 \<le> c \<and> c \<le> 0x0D) \<or> (0x1C \<le> c \<and> c \<le> 0x20) \<or> c = 0x85 \<or> c = 0xA0 \<or>
     c = 0x1680 \<or> (0x2000 \<le> c \<and> c \<le> 0x200A) \<or> c = 0x2028 \<or> c = 0x2029 \<or>
     c = 0x202F \<or> c = 0x205F \<or> c = 0x3000"

definition strip :: "str \<Rightarrow> str" where
  "strip s = rev (dropWhile isspace (rev (dropWhile isspace s)))"

text \<open>
  \<open>s.split(sep)\<close> for a non-empty separator: the pieces between the occurrences of
  \<open>sep\<close>, found from the left and not overlapping. (Python raises \<open>ValueError\<close> for an
  empty separator; the source only splits at \<open>'\n'\<close>, \<open>'charset='\<close> and \<open>';'\<close>.)
\<close>

function split_str :: "str \<Rightarrow> str \<Rightarrow> str list" where
  "split_str sep [] = [[]]"
| "split_str sep (x # xs) =
     (if sep \<noteq> [] \<and> prefix sep (x # xs)
      then [] # split_str sep (drop (length sep) (x # xs))
      else (let r = split_str sep xs in (x # hd r) # tl r))"
  by pat_completeness auto
termination
  by (relation "measure (\<lambda>(sep, s). length s)") auto

fun join :: "str \<Rightarrow> str list \<Rightarrow> str" where
  "join sep [] = []"
| "join sep [x] = x"
| "join sep (x # y # ys) = x @ sep @ join sep (y # ys)"

subsection \<open>The regular expressions of \<open>clean_markdown\<close>\<close>

text \<open>
  \<open>re.sub(r'c{3,}', rep, text)\<close> for a single character \<open>c\<close>: scanning from the left,
  every maximal run of \<open>c\<close> of length at least 3 is replaced by \<open>rep\<close> (the quantifier
  is greedy, so a match always takes the whole run); shorter runs and all other
  characters are copied.
\<close>

function re_sub_run :: "nat \<Rightarrow> str \<Rightarrow> str \<Rightarrow> str" where
  "re_sub_run c rep [] = []"
| "re_sub_run c rep (x # xs) =
     (if x = c
      then (let run = takeWhile (\<lambda>y. y = c) (x # xs);
                rest = dropWhile (\<lambda>y. y = c) (x # xs)
            in (if 3 \<le> length run then rep else run) @ re_sub_run c rep rest)
      else x # re_sub_run c rep xs)"
  by pat_completeness auto
termination
  by (relation "measure (\<lambda>(c, rep, s). length s)")
     (auto simp: le_imp_less_Suc length_dropWhile_le)

text \<open>
  \<open>re.sub(r'!\[\]\((.*?)\)', r'![label](\1)', text)\<close>: at a position where the text
  reads \<open>![](\<close>, the lazy group takes the characters up to the first \<open>)\<close>; since \<open>.\<close>
  does not match a newline, there is no match at that position when a newline comes
  before the first \<open>)\<close> or no \<open>)\<close> follows. After a match the scan resumes behind the
  closing parenthesis; without one the character is copied and the scan moves one on.
\<close>

function re_sub_image :: "str \<Rightarrow> str \<Rightarrow> str" where
  "re_sub_image label [] = []"
| "re_sub_image label (x # xs) =
     (if prefix (u ''![]('') (x # xs)
      then (let body = drop 4 (x # xs);
                grp = takeWhile (\<lambda>y. y \<noteq> RPAREN \<and> y \<noteq> NL) body;
                after = dropWhile (\<lambda>y. y \<noteq> RPAREN \<and> y \<noteq> NL) body
            in (if after \<noteq> [] \<and> hd after = RPAREN
                then u ''!['' @ label @ u ''](''  @ grp @ [RPAREN] @ re_sub_image label (tl after)
                else x # re_sub_image label xs))
      else x # re_sub_image label xs)"
  by pat_completeness auto
termination
proof (relation "measure (\<lambda>(label, s). length s)")
  fix label :: str and x :: nat and xs body grp after :: str
  assume b: "body = drop 4 (x # xs)"
    and a: "after = dropWhile (\<lambda>y. y \<noteq> RPAREN \<and> y \<noteq> NL) body"
    and ne: "after \<noteq> [] \<and> hd after = RPAREN"
  have "length (tl after) < length after"
    using ne by (cases after) auto
  also have "length after \<le> length body"
    unfolding a by (rule length_dropWhile_le)
  also have "length body \<le> length (x # xs)"
    unfolding b by simp
  finally show "((label, tl after), (label, x # xs)) \<in> measure (\<lambda>(label, s). length s)"
    by simp
qed auto

section \<open>\<open>clean_markdown\<close> (lines 48-66)\<close>

text \<open>The placeholder label of line 65, the two code points U+56FE U+7247.\<close>

definition image_label :: str where
  "image_label = [0x56FE, 0x7247]"

definition clean_markdown :: "str \<Rightarrow> str" where
  "clean_markdown text0 =
     (let text1 = re_sub_run NL [NL, NL] text0;
          text2 = join [NL] (map strip (split_str [NL] text1));
          text3 = re_sub_run EQ [] text2;
          text4 = re_sub_image image_label text3
      in strip text4)"

section \<open>The libraries the service calls\<close>

text \<open>
  Exceptions are values. The source tells \<open>UnicodeDecodeError\<close> from every other
  exception (line 32) and raises \<open>HTTPException\<close> itself (lines 46 and 185);
  \<open>HTTPStatusError\<close> is what httpx's \<open>raise_for_status\<close> raises; any other exception
  of a library is \<open>OtherError\<close> with a tag.
\<close>

datatype exc =
    UnicodeDecodeError
  | HTTPStatusError nat
  | OtherError str
  | HTTPException nat str

text \<open>An httpx response: status, headers (keyed by lower-case name) and body.\<close>

record response =
  status_code :: nat
  headers :: "str \<rightharpoonup> str"
  content :: bytes

text \<open>
  The values the extractor may return: a \<open>str\<close>, a \<open>dict\<close> with string keys, \<open>None\<close>,
  or any other object (tagged).
\<close>

datatype pyval =
    PStr str
  | PDict "str \<Rightarrow> pyval option"
  | PNone
  | PObject nat

text \<open>
  A parsed document (BeautifulSoup): a tag carries its \<open>class\<close> attribute (the list of
  its tokens, when the attribute is present), its \<open>id\<close> attribute (when present) and
  its children; a \<open>NavigableString\<close> is a text node; \<open>OtherString\<close> stands for the
  string kinds \<open>get_text\<close> leaves out (comments, declarations, script and style text).
\<close>

datatype node =
    Tag "str list option" "str option" "node list"
  | NavigableString str
  | OtherString str

text \<open>
  Everything outside the repository is a field of \<open>runtime\<close>: the HTTP client, the
  codecs of \<open>bytes.decode\<close>, chardet, the Unicode case mapping outside ASCII, \<open>str()\<close>
  of exceptions and of non-string values, the HTML parser, markdownify and the
  magic_html extractor. Calls that may raise return a sum; the parser is one of
  them (\<open>BeautifulSoup(html, 'html.parser')\<close> raises on markup that \<open>html.parser\<close>
  rejects).
\<close>

record runtime =
  http_get :: "str \<Rightarrow> exc + response"
  decode :: "bytes \<Rightarrow> str \<Rightarrow> exc + str"
  chardet_detect :: "bytes \<Rightarrow> str option"
  lower_nonascii :: "str \<Rightarrow> nat \<Rightarrow> str"
  exc_str :: "exc \<Rightarrow> str"
  py_str :: "pyval \<Rightarrow> str"
  soup :: "str \<Rightarrow> exc + node list"
  markdownify :: "str \<Rightarrow> exc + str"
  extractor_extract :: "str \<Rightarrow> str \<Rightarrow> str \<Rightarrow> exc + pyval"

subsection \<open>\<open>str.lower\<close>, \<open>dict.get\<close>, truthiness\<close>

text \<open>
  CPython lowers a string position by position: an ASCII character by the ASCII
  table, a character outside ASCII by Unicode's full case mapping, which may give
  several code points and depends on the context for capital sigma; that part is
  \<open>lower_nonascii rt s i\<close> for position \<open>i\<close> of \<open>s\<close>.
\<close>

definition ascii_lower :: "nat \<Rightarrow> nat" where
  "ascii_lower c = (if 65 \<le> c \<and> c \<le> 90 then c + 32 else c)"

fun lower_from :: "runtime \<Rightarrow> str \<Rightarrow> nat \<Rightarrow> str \<Rightarrow> str" where
  "lower_from rt s i [] = []"
| "lower_from rt s i (c # cs) =
     (if c < 128 then [ascii_lower c] else lower_nonascii rt s i) @ lower_from rt s (Suc i) cs"

definition lower :: "runtime \<Rightarrow> str \<Rightarrow> str" where
  "lower rt s = lower_from rt s 0 s"

definition dict_get :: "('k \<rightharpoonup> 'v) \<Rightarrow> 'k \<Rightarrow> 'v \<Rightarrow> 'v" where
  "dict_get d k dflt = (case d k of None \<Rightarrow> dflt | Some v \<Rightarrow> v)"

text \<open>\<open>x or dflt\<close> for an optional string: \<open>None\<close> and \<open>''\<close> are falsy.\<close>

definition str_or :: "str option \<Rightarrow> str \<Rightarrow> str" where
  "str_or x dflt = (case x of None \<Rightarrow> dflt | Some s \<Rightarrow> if s = [] then dflt else s)"

section \<open>\<open>fetch_url\<close> (lines 13-46)\<close>

text \<open>httpx: \<open>raise_for_status\<close> raises \<open>HTTPStatusError\<close> unless the status is 2xx.\<close>

definition raise_for_status :: "response \<Rightarrow> exc option" where
  "raise_for_status r =
     (if 200 \<le> status_code r \<and> status_code r \<le> 299 then None
      else Some (HTTPStatusError (status_code r)))"

text \<open>
  Lines 20-24: the charset named by the lower-cased Content-Type header, when the
  header contains \<open>charset=\<close>: the text behind the last \<open>charset=\<close>, up to the first
  \<open>;\<close>. (\<open>split\<close> never returns an empty list, so \<open>[-1]\<close> and \<open>[0]\<close> are \<open>last\<close> and
  \<open>hd\<close>.)
\<close>

definition header_charset :: "runtime \<Rightarrow> response \<Rightarrow> str option" where
  "header_charset rt r =
     (let content_type = lower rt (dict_get (headers r) (u ''content-type'') [])
      in if sublist (u ''charset='') content_type
         then Some (hd (split_str (u '';'') (last (split_str (u ''charset='') content_type))))
         else None)"

text \<open>
  Lines 21-27: the attempt with the declared charset; the bare \<open>except\<close> swallows
  every failure of it.
\<close>

definition decode_declared :: "runtime \<Rightarrow> response \<Rightarrow> str option" where
  "decode_declared rt r =
     (case header_charset rt r of
        None \<Rightarrow> None
      | Some charset \<Rightarrow>
          (case decode rt (content r) charset of Inr s \<Rightarrow> Some s | Inl e \<Rightarrow> None))"

text \<open>Lines 34-43: detection, with GB18030 in place of a detected GB2312 or GBK.\<close>

definition detected_encoding :: "runtime \<Rightarrow> bytes \<Rightarrow> str" where
  "detected_encoding rt c =
     (let encoding = chardet_detect rt c;
          encoding = (if (case encoding of None \<Rightarrow> False
                          | Some e \<Rightarrow> e \<noteq> [] \<and> lower rt e \<in> set [u ''gb2312'', u ''gbk''])
                      then Some (u ''gb18030'') else encoding)
      in str_or encoding (u ''utf-8''))"

definition decode_detected :: "runtime \<Rightarrow> bytes \<Rightarrow> exc + str" where
  "decode_detected rt c = decode rt c (detected_encoding rt c)"

text \<open>The body of the \<open>try\<close> (lines 16-43); \<open>Inl\<close> is an exception leaving it.\<close>

definition fetch_url_try :: "runtime \<Rightarrow> str \<Rightarrow> exc + str" where
  "fetch_url_try rt url =
     (case http_get rt url of
        Inl e \<Rightarrow> Inl e
      | Inr r \<Rightarrow>
          (case raise_for_status r of
             Some e \<Rightarrow> Inl e
           | None \<Rightarrow>
               (case decode_declared rt r of
                  Some s \<Rightarrow> Inr s
                | None \<Rightarrow>
                    (case decode rt (content r) (u ''utf-8'') of
                       Inr s \<Rightarrow> Inr s
                     | Inl UnicodeDecodeError \<Rightarrow> decode_detected rt (content r)
                     | Inl e \<Rightarrow> Inl e))))"

text \<open>Lines 45-46: every exception of the body becomes \<open>HTTPException(400)\<close>.\<close>

definition fetch_url :: "runtime \<Rightarrow> str \<Rightarrow> exc + str" where
  "fetch_url rt url =
     (case fetch_url_try rt url of
        Inl e \<Rightarrow> Inl (HTTPException 400 (u ''Error fetching URL: '' @ exc_str rt e))
      | Inr s \<Rightarrow> Inr s)"

section \<open>\<open>convert_content\<close> (lines 68-91)\<close>

text \<open>
  bs4's \<open>get_text(separator, strip)\<close>: the text nodes of the document in document
  order; with \<open>strip\<close> each is stripped and the empty ones are dropped; the rest is
  joined with the separator.
\<close>

fun all_strings :: "node \<Rightarrow> str list" where
  "all_strings (Tag cls ident children) = concat (map all_strings children)"
| "all_strings (NavigableString s) = [s]"
| "all_strings (OtherString s) = []"

definition get_text :: "str \<Rightarrow> bool \<Rightarrow> node list \<Rightarrow> str" where
  "get_text separator strp doc =
     (let strings = concat (map all_strings doc)
      in join separator
           (if strp then filter (\<lambda>s. s \<noteq> []) (map strip strings) else strings))"

definition convert_content :: "runtime \<Rightarrow> pyval \<Rightarrow> str \<Rightarrow> exc + str" where
  "convert_content rt html0 output_format =
     (let html = (case html0 of PStr s \<Rightarrow> s | v \<Rightarrow> py_str rt v)
      in if output_format = u ''html'' then Inr html
         else if output_format = u ''markdown'' then
           (case markdownify rt html of
              Inl e \<Rightarrow> Inl e
            | Inr markdown \<Rightarrow> Inr (clean_markdown markdown))
         else if output_format = u ''text'' then
           (case soup rt html of
              Inl e \<Rightarrow> Inl e
            | Inr doc \<Rightarrow> Inr (get_text [NL] True doc))
         else Inr html)"

section \<open>\<open>extract_html_content\<close> (lines 93-105)\<close>

definition extract_html_content :: "pyval \<Rightarrow> pyval" where
  "extract_html_content data =
     (case data of PDict d \<Rightarrow> dict_get d (u ''html'') (PStr []) | v \<Rightarrow> PStr [])"

section \<open>\<open>detect_html_type\<close> (lines 107-145)\<close>

text \<open>\<open>find_all\<close>: the tags of the document, in document order.\<close>

fun tags :: "node \<Rightarrow> node list" where
  "tags (Tag cls ident children) = Tag cls ident children # concat (map tags children)"
| "tags (NavigableString s) = []"
| "tags (OtherString s) = []"

text \<open>Lines 134-135: the class tokens of every tag that has a \<open>class\<close> attribute.\<close>

fun element_classes :: "node \<Rightarrow> str list" where
  "element_classes (Tag (Some cls) ident children) = cls"
| "element_classes n = []"

text \<open>Lines 136-137: the \<open>id\<close> of every tag that has one.\<close>

fun element_ids :: "node \<Rightarrow> str list" where
  "element_ids (Tag cls (Some ident) children) = [ident]"
| "element_ids n = []"

definition weixin_domains :: "str list" where
  "weixin_domains = [u ''mp.weixin.qq.com'', u ''weixin.qq.com'']"

text \<open>
  Lines 127-130: seven ASCII keywords and five Chinese ones (luntan, tiezi, huifu,
  pinglun, taolun), the latter given by their code points.
\<close>

definition forum_indicators :: "str list" where
  "forum_indicators =
     [u ''forum'', u ''topic'', u ''thread'', u ''post'', u ''reply'', u ''comment'',
      u ''discuss'',
      [0x8BBA, 0x575B], [0x5E16, 0x5B50], [0x56DE, 0x590D], [0x8BC4, 0x8BBA],
      [0x8BA8, 0x8BBA]]"

definition classes_and_ids :: "runtime \<Rightarrow> node list \<Rightarrow> str" where
  "classes_and_ids rt doc =
     (let elements = concat (map tags doc)
      in lower rt (join (u '' '')
           (concat (map element_classes elements) @ concat (map element_ids elements))))"

text \<open>
  The URL test of lines 119-121 returns before the parser is called (line 124); an
  exception of the parser leaves the function.
\<close>

definition detect_html_type :: "runtime \<Rightarrow> str \<Rightarrow> str \<Rightarrow> exc + str" where
  "detect_html_type rt html url =
     (let url_lower = lower rt url
      in if list_ex (\<lambda>domain. sublist domain url_lower) weixin_domains
         then Inr (u ''weixin'')
         else (case soup rt html of
                 Inl e \<Rightarrow> Inl e
               | Inr doc \<Rightarrow>
                   if list_ex (\<lambda>indicator. sublist indicator (classes_and_ids rt doc))
                        forum_indicators
                   then Inr (u ''forum'')
                   else Inr (u ''article'')))"

text \<open>
  The claims speak of "any element" and of "all text nodes" of a document. That is
  \<open>element_of\<close>: a node of the document at any depth. It is written from those words
  and compared below with what \<open>tags\<close> and \<open>all_strings\<close> collect.
\<close>

inductive element_of :: "node \<Rightarrow> node list \<Rightarrow> bool" where
  top: "n \<in> set doc \<Longrightarrow> element_of n doc"
| nested: "Tag cls ident children \<in> set doc \<Longrightarrow> element_of n children \<Longrightarrow> element_of n doc"

section \<open>\<open>extract_content\<close>, the handler of \<open>GET /api/extract\<close> (lines 147-185)\<close>

record payload =
  p_url :: str
  p_content :: str
  p_format :: str
  p_type :: str
  success :: bool

text \<open>
  The body of the \<open>try\<close> (lines 163-182). \<open>fetch_url\<close>'s \<open>HTTPException\<close> is an
  exception like any other here.
\<close>

definition extract_content_try :: "runtime \<Rightarrow> str \<Rightarrow> str \<Rightarrow> exc + payload" where
  "extract_content_try rt url output_format =
     (case fetch_url rt url of
        Inl e \<Rightarrow> Inl e
      | Inr html \<Rightarrow>
          (case detect_html_type rt html url of
             Inl e \<Rightarrow> Inl e
           | Inr html_type \<Rightarrow>
               (case extractor_extract rt html url html_type of
                  Inl e \<Rightarrow> Inl e
                | Inr extracted_data \<Rightarrow>
                    (let html_content = extract_html_content extracted_data
                     in case convert_content rt html_content output_format of
                          Inl e \<Rightarrow> Inl e
                        | Inr converted_content \<Rightarrow>
                            Inr \<lparr>p_url = url, p_content = converted_content,
                                 p_format = output_format, p_type = html_type,
                                 success = True\<rparr>))))"

text \<open>
  The handler: \<open>output_format_arg\<close> is the query parameter, \<open>None\<close> when the request
  does not give it (the default \<open>"text"\<close> of line 150 applies); lines 184-185 turn
  every exception of the body, \<open>HTTPException\<close> included, into \<open>HTTPException(500)\<close>.
  (FastAPI compares the parameter with the three names of the annotation before it
  calls the handler; the handler itself, modelled here, takes any string.)
\<close>

definition extract_content :: "runtime \<Rightarrow> str \<Rightarrow> str option \<Rightarrow> exc + payload" where
  "extract_content rt url output_format_arg =
     (let output_format = (case output_format_arg of None \<Rightarrow> u ''text'' | Some f \<Rightarrow> f)
      in case extract_content_try rt url output_format of
           Inl e \<Rightarrow> Inl (HTTPException 500 (exc_str rt e))
         | Inr p \<Rightarrow> Inr p)"

text \<open>
  The status of the HTTP response: 200 for a returned payload, the status of a
  raised \<open>HTTPException\<close>, 500 for any other exception.
\<close>

fun http_status :: "exc + payload \<Rightarrow> nat" where
  "http_status (Inr p) = 200"
| "http_status (Inl (HTTPException code detail)) = code"
| "http_status (Inl e) = 500"

section \<open>A concrete runtime\<close>

text \<open>
  The closed theorems below run the service against \<open>rt0\<close>, a runtime given by
  finite tables; outside the entries named here no value of a table is used.

  Codecs (checked against CPython): every codec listed decodes an ASCII body to
  itself; the body \<open>A1 A4\<close> is U+30FB under \<open>gb2312\<close> and U+00B7 under \<open>gbk\<close> and
  \<open>gb18030\<close>; \<open>poem_bytes\<close> is the GBK encoding of the eleven characters \<open>poem_text\<close>;
  \<open>FF FE 41 00\<close> is \<open>A\<close> under \<open>UTF-16\<close>, and \<open>FF FE 41\<close> is truncated there
  (\<open>UnicodeDecodeError\<close>); none of these bodies is UTF-8; an unknown codec name
  raises \<open>LookupError\<close>.

  Detector: chardet answers a byte order mark \<open>FF FE\<close> (not followed by \<open>00 00\<close>)
  with \<open>UTF-16\<close> before any other analysis, and it reports \<open>GB2312\<close> for \<open>poem_bytes\<close>.

  Parser: the trees of five small documents; \<open>html.parser\<close> rejects the
  marked section of \<open>rejected_html\<close>, and bs4 raises \<open>ParserRejectedMarkup\<close> for it.
\<close>

definition poem_bytes :: bytes where
  "poem_bytes =
     [0xC0, 0xEB, 0xC0, 0xEB, 0xD4, 0xAD, 0xC9, 0xCF, 0xB2, 0xDD, 0xA3, 0xAC,
      0xD2, 0xBB, 0xCB, 0xEA, 0xD2, 0xBB, 0xBF, 0xDD, 0xC8, 0xD9]"

definition poem_text :: str where
  "poem_text =
     [0x79BB, 0x79BB, 0x539F, 0x4E0A, 0x8349, 0xFF0C, 0x4E00, 0x5C81, 0x4E00, 0x67AF,
      0x8363]"

definition sample_decode :: "bytes \<Rightarrow> str \<Rightarrow> exc + str" where
  "sample_decode b codec =
     (if codec \<in> set [u ''utf-8'', u ''gb2312'', u ''gbk'', u ''gb18030''] then
        (if list_all (\<lambda>x. x < 128) b then Inr b
         else if codec = u ''utf-8'' then Inl UnicodeDecodeError
         else if b = [0xA1, 0xA4] then Inr (if codec = u ''gb2312'' then [0x30FB] else [0xB7])
         else if b = poem_bytes then Inr poem_text
         else Inl UnicodeDecodeError)
      else if codec = u ''UTF-16'' then
        (if b = [0xFF, 0xFE, 0x41, 0x00] then Inr [0x41] else Inl UnicodeDecodeError)
      else Inl (OtherError (u ''LookupError'')))"

definition sample_detect :: "bytes \<Rightarrow> str option" where
  "sample_detect b =
     (if b = poem_bytes then Some (u ''GB2312'')
      else if prefix [0xFF, 0xFE] b \<and> \<not> prefix [0xFF, 0xFE, 0x00, 0x00] b
      then Some (u ''UTF-16'')
      else None)"

definition page_html :: str where
  "page_html = u ''<h1>Title</h1><p>Text</p>''"

definition forum_html :: str where
  "forum_html = u ''<div class=Forum-List id=main><p> Hi </p><!--x--></div>''"

definition nested_html :: str where
  "nested_html = u ''<div><ul><li id=Topic-7>x</li></ul></div>''"

definition cjk_html :: str where
  "cjk_html = u ''<div><p id='' @ [0x8BBA, 0x575B] @ u ''>x</p></div>''"

definition entity_html :: str where
  "entity_html = u ''<p>a &lt;b&gt; c</p>''"

definition rejected_html :: str where
  "rejected_html = u ''<![x[y]]>''"

definition sample_soup :: "str \<Rightarrow> exc + node list" where
  "sample_soup s =
     (if s = page_html then
        Inr [Tag None None [NavigableString (u ''Title'')],
             Tag None None [NavigableString (u ''Text'')]]
      else if s = forum_html then
        Inr [Tag (Some [u ''Forum-List'']) (Some (u ''main''))
               [Tag None None [NavigableString (u '' Hi '')], OtherString (u ''x'')]]
      else if s = nested_html then
        Inr [Tag None None
               [Tag None None [Tag None (Some (u ''Topic-7'')) [NavigableString (u ''x'')]]]]
      else if s = cjk_html then
        Inr [Tag None None [Tag None (Some [0x8BBA, 0x575B]) [NavigableString (u ''x'')]]]
      else if s = entity_html then
        Inr [Tag None None [NavigableString (u ''a <b> c'')]]
      else if s = rejected_html then
        Inl (OtherError (u ''ParserRejectedMarkup''))
      else Inr [])"

definition sample_get :: "str \<Rightarrow> exc + response" where
  "sample_get url =
     (if url = u ''http://example.com/gb'' then
        Inr \<lparr>status_code = 200,
             headers = [u ''content-type'' \<mapsto> u ''text/html; charset=GB2312''],
             content = [0xA1, 0xA4]\<rparr>
      else if url = u ''http://example.com/poem'' then
        Inr \<lparr>status_code = 200, headers = Map.empty, content = poem_bytes\<rparr>
      else if url = u ''http://example.com/utf16'' then
        Inr \<lparr>status_code = 200, headers = Map.empty, content = [0xFF, 0xFE, 0x41, 0x00]\<rparr>
      else if url = u ''http://example.com/cut'' then
        Inr \<lparr>status_code = 200, headers = Map.empty, content = [0xFF, 0xFE, 0x41]\<rparr>
      else if url = u ''http://example.com/missing'' then
        Inr \<lparr>status_code = 404, headers = Map.empty, content = []\<rparr>
      else if url = u ''http://example.com/page'' then
        Inr \<lparr>status_code = 200,
             headers = [u ''content-type'' \<mapsto> u ''text/html; charset=utf-8''],
             content = page_html\<rparr>
      else if url = u ''http://example.com/odd'' then
        Inr \<lparr>status_code = 200,
             headers = [u ''content-type'' \<mapsto> u ''text/html; charset=x-unknown''],
             content = page_html\<rparr>
      else if url = u ''http://example.com/board'' then
        Inr \<lparr>status_code = 200, headers = Map.empty, content = forum_html\<rparr>
      else Inl (OtherError (u ''ConnectError'')))"

definition sample_markdownify :: "str \<Rightarrow> exc + str" where
  "sample_markdownify s =
     (if s = page_html then Inr (u ''Title\<newline>=====\<newline>\<newline>Text\<newline>\<newline>'')
      else Inr s)"

definition sample_exc_str :: "exc \<Rightarrow> str" where
  "sample_exc_str e =
     (case e of
        UnicodeDecodeError \<Rightarrow> u ''UnicodeDecodeError''
      | HTTPStatusError code \<Rightarrow> u ''HTTPStatusError''
      | OtherError tag \<Rightarrow> tag
      | HTTPException code detail \<Rightarrow> detail)"

definition rt0 :: runtime where
  "rt0 =
     \<lparr>http_get = sample_get,
      decode = sample_decode,
      chardet_detect = sample_detect,
      lower_nonascii = (\<lambda>s i. [s ! i]),
      exc_str = sample_exc_str,
      py_str = (\<lambda>v. u ''None''),
      soup = sample_soup,
      markdownify = sample_markdownify,
      extractor_extract = (\<lambda>html base_url html_type. Inr (PDict [u ''html'' \<mapsto> PStr html]))\<rparr>"

section \<open>Status codes of the endpoint\<close>

lemma fetch_url_Inl:
  "fetch_url rt url = Inl e \<Longrightarrow> \<exists>detail. e = HTTPException 400 detail"
  by (auto simp: fetch_url_def split: sum.splits)

lemma extract_content_Inl:
  "extract_content rt url fmt = Inl e \<Longrightarrow> \<exists>detail. e = HTTPException 500 detail"
  by (auto simp: extract_content_def Let_def split: sum.splits)

lemma extract_content_status:
  "http_status (extract_content rt url fmt) = 200 \<or>
   http_status (extract_content rt url fmt) = 500"
proof (cases "extract_content rt url fmt")
  case (Inl e)
  then show ?thesis using extract_content_Inl [OF Inl] by auto
next
  case (Inr p)
  then show ?thesis by simp
qed

lemma fetch_failure_status:
  assumes "fetch_url_try rt url = Inl e"
  shows "http_status (extract_content rt url fmt) = 500"
  using assms
  by (simp add: extract_content_def extract_content_try_def fetch_url_def Let_def)

text \<open>
  C1. The claim: a request whose fetch fails is answered with status 400. The code:
  \<open>fetch_url\<close> raises \<open>HTTPException(400)\<close> for the unreachable URL, and the handler's
  \<open>except Exception\<close> catches that very exception and raises \<open>HTTPException(500)\<close>;
  the same happens for a 404 of the remote server. The response is 500.
\<close>

theorem unreachable_url_status:
  "fetch_url rt0 (u ''http://unreachable.invalid/'') =
     Inl (HTTPException 400 (u ''Error fetching URL: ConnectError'')) \<and>
   http_status (extract_content rt0 (u ''http://unreachable.invalid/'') None) = 500 \<and>
   http_status (extract_content rt0 (u ''http://example.com/missing'') None) = 500"
proof -
  have down: "fetch_url_try rt0 (u ''http://unreachable.invalid/'') =
      Inl (OtherError (u ''ConnectError''))"
    by (simp add: fetch_url_try_def rt0_def sample_get_def u_def)
  have missing: "fetch_url_try rt0 (u ''http://example.com/missing'') =
      Inl (HTTPStatusError 404)"
    by (simp add: fetch_url_try_def rt0_def sample_get_def u_def raise_for_status_def)
  have "fetch_url rt0 (u ''http://unreachable.invalid/'') =
      Inl (HTTPException 400 (u ''Error fetching URL: ConnectError''))"
    unfolding fetch_url_def down by (simp add: rt0_def sample_exc_str_def u_def)
  then show ?thesis
    using fetch_failure_status [OF down] fetch_failure_status [OF missing] by simp
qed

section \<open>Blank lines in the markdown clean-up\<close>

text \<open>
  C3. The claim: the output of \<open>clean_markdown\<close> never holds three newlines in a row.
  The code collapses the runs of newlines first (line 59) and only then strips the
  lines (line 61) and deletes the runs of \<open>=\<close> (line 63), so a line that those steps
  empty leaves a longer run behind: the markdown of a heading underlined with \<open>=\<close>,
  and a text with lines of blanks, both come out with three newlines in a row.
\<close>

theorem clean_markdown_heading:
  "clean_markdown (u ''Title\<newline>=====\<newline>\<newline>Text'') = u ''Title\<newline>\<newline>\<newline>Text'' \<and>
   clean_markdown (u ''a\<newline> \<newline> \<newline>b'') = u ''a\<newline>\<newline>\<newline>b'' \<and>
   sublist [NL, NL, NL] (clean_markdown (u ''Title\<newline>=====\<newline>\<newline>Text''))"
proof -
  have 1: "clean_markdown (u ''Title\<newline>=====\<newline>\<newline>Text'') = u ''Title\<newline>\<newline>\<newline>Text''"
    by (simp add: clean_markdown_def u_def NL_def EQ_def RPAREN_def strip_def isspace_def)
  have 2: "clean_markdown (u ''a\<newline> \<newline> \<newline>b'') = u ''a\<newline>\<newline>\<newline>b''"
    by (simp add: clean_markdown_def u_def NL_def EQ_def RPAREN_def strip_def isspace_def)
  have 3: "sublist [NL, NL, NL] (u ''Title\<newline>\<newline>\<newline>Text'')"
    by (simp add: u_def NL_def sublist_code)
  show ?thesis using 1 2 3 by simp
qed

section \<open>Facts about the string primitives\<close>

lemma set_strip: "set (strip s) \<subseteq> set s"
proof -
  have "set (strip s) = set (dropWhile isspace (rev (dropWhile isspace s)))"
    by (simp add: strip_def)
  also have "\<dots> \<subseteq> set (rev (dropWhile isspace s))"
    by (auto dest: set_dropWhileD)
  also have "\<dots> \<subseteq> set s"
    by (auto dest: set_dropWhileD)
  finally show ?thesis .
qed

lemma set_join: "set (join sep xs) \<subseteq> set sep \<union> \<Union> (set ` set xs)"
  by (induction sep xs rule: join.induct) auto

lemma strip_all_space:
  assumes "\<forall>c \<in> set s. isspace c"
  shows "strip s = []"
proof -
  have d: "dropWhile isspace s = []" using assms by simp
  show ?thesis unfolding strip_def d by simp
qed

lemma set_re_sub_run: "set (re_sub_run c rep s) \<subseteq> set rep \<union> set s"
proof (induction c rep s rule: re_sub_run.induct)
  case (1 c rep)
  then show ?case by simp
next
  case (2 c rep x xs)
  show ?case
  proof (cases "x = c")
    case True
    let ?run = "takeWhile (\<lambda>y. y = c) (x # xs)"
    let ?rest = "dropWhile (\<lambda>y. y = c) (x # xs)"
    have ih: "set (re_sub_run c rep ?rest) \<subseteq> set rep \<union> set ?rest"
      using "2.IH"(1) [OF True refl refl] .
    have r1: "set ?run \<subseteq> set (x # xs)" by (auto dest: set_takeWhileD)
    have r2: "set ?rest \<subseteq> set (x # xs)" by (auto dest: set_dropWhileD)
    have "re_sub_run c rep (x # xs) =
        (if 3 \<le> length ?run then rep else ?run) @ re_sub_run c rep ?rest"
      using True by (simp add: Let_def)
    then show ?thesis using ih r1 r2 by auto
  next
    case False
    then show ?thesis using "2.IH"(2) [OF False] by auto
  qed
qed

lemma split_str_nonempty: "split_str sep s \<noteq> []"
  by (induction sep s rule: split_str.induct) (auto simp: Let_def)

lemma set_split_str: "p \<in> set (split_str sep s) \<Longrightarrow> set p \<subseteq> set s"
proof (induction sep s arbitrary: p rule: split_str.induct)
  case (1 sep)
  then show ?case by simp
next
  case (2 sep x xs)
  show ?case
  proof (cases "sep \<noteq> [] \<and> prefix sep (x # xs)")
    case True
    then have "p = [] \<or> p \<in> set (split_str sep (drop (length sep) (x # xs)))"
      using "2.prems" by auto
    then show ?thesis
    proof
      assume "p = []" then show ?thesis by simp
    next
      assume "p \<in> set (split_str sep (drop (length sep) (x # xs)))"
      from "2.IH"(1) [OF True this]
      have "set p \<subseteq> set (drop (length sep) (x # xs))" .
      then show ?thesis using set_drop_subset by fastforce
    qed
  next
    case False
    let ?r = "split_str sep xs"
    have ne: "?r \<noteq> []" by (rule split_str_nonempty)
    from False "2.prems" have "p = x # hd ?r \<or> p \<in> set (tl ?r)"
      by (auto simp: Let_def)
    then show ?thesis
    proof
      assume p: "p = x # hd ?r"
      have "hd ?r \<in> set ?r" using ne by simp
      from "2.IH"(2) [OF False this] show ?thesis using p by auto
    next
      assume "p \<in> set (tl ?r)"
      then have "p \<in> set ?r" using ne by (auto dest: list.set_sel(2))
      from "2.IH"(2) [OF False this] show ?thesis by auto
    qed
  qed
qed

lemma re_sub_image_no_bang: "33 \<notin> set s \<Longrightarrow> re_sub_image label s = s"
proof (induction s)
  case Nil
  then show ?case by simp
next
  case (Cons x xs)
  then have "x \<noteq> 33" by auto
  then have "\<not> prefix (u ''![]('') (x # xs)" by (auto simp: u_def)
  then show ?case using Cons by simp
qed

lemma clean_markdown_all_space:
  assumes "\<forall>c \<in> set m. isspace c"
  shows "clean_markdown m = []"
proof -
  let ?t1 = "re_sub_run NL [NL, NL] m"
  let ?t2 = "join [NL] (map strip (split_str [NL] ?t1))"
  let ?t3 = "re_sub_run EQ [] ?t2"
  have nl: "isspace NL" by (simp add: isspace_def NL_def)
  have t1: "\<forall>c \<in> set ?t1. isspace c"
    using set_re_sub_run [of NL "[NL, NL]" m] assms nl by auto
  have "strip p = []" if "p \<in> set (split_str [NL] ?t1)" for p
    using set_split_str [OF that] t1 by (intro strip_all_space) auto
  then have "\<Union> (set ` set (map strip (split_str [NL] ?t1))) = {}" by auto
  then have t2: "set ?t2 \<subseteq> {NL}"
    using set_join [of "[NL]" "map strip (split_str [NL] ?t1)"] by auto
  have t3: "set ?t3 \<subseteq> {NL}"
    using set_re_sub_run [of EQ "[]" ?t2] t2 by auto
  then have "33 \<notin> set ?t3" by (auto simp: NL_def)
  then have t4: "re_sub_image image_label ?t3 = ?t3" by (rule re_sub_image_no_bang)
  have "strip ?t3 = []"
    using t3 nl by (intro strip_all_space) auto
  then show ?thesis by (simp add: clean_markdown_def Let_def t4)
qed


section \<open>Nodes of a document\<close>

lemma element_of_mono: "element_of n d \<Longrightarrow> set d \<subseteq> set d' \<Longrightarrow> element_of n d'"
proof (induction arbitrary: d' rule: element_of.induct)
  case (top n doc)
  then show ?case by (auto intro: element_of.top)
next
  case (nested cls ident children doc n)
  then have "Tag cls ident children \<in> set d'" by auto
  then show ?case using nested.hyps(2) by (rule element_of.nested)
qed

lemma tags_element_of: "t \<in> set (tags n) \<Longrightarrow> element_of t [n]"
proof (induction n)
  case (Tag cls ident children)
  from Tag.prems have "t = Tag cls ident children \<or> t \<in> set (concat (map tags children))"
    by simp
  then show ?case
  proof
    assume "t = Tag cls ident children"
    then show ?thesis by (simp add: element_of.top)
  next
    assume "t \<in> set (concat (map tags children))"
    then obtain m where m: "m \<in> set children" "t \<in> set (tags m)" by auto
    then have "element_of t [m]" by (rule Tag.IH)
    then have "element_of t children" by (rule element_of_mono) (use m(1) in simp)
    then show ?thesis by (rule element_of.nested [of cls ident children, rotated]) simp
  qed
next
  case (NavigableString s)
  then show ?case by simp
next
  case (OtherString s)
  then show ?case by simp
qed

lemma concat_memberI: "x \<in> set (f n) \<Longrightarrow> n \<in> set doc \<Longrightarrow> x \<in> set (concat (map f doc))"
  by (induction doc) auto

lemma element_of_tags:
  "element_of n doc \<Longrightarrow> n = Tag c i ch \<Longrightarrow> n \<in> set (concat (map tags doc))"
proof (induction rule: element_of.induct)
  case (top n doc)
  have "n \<in> set (tags n)" using top.prems by simp
  then show ?case using top.hyps by (rule concat_memberI)
next
  case (nested cls ident children doc n)
  from nested.IH [OF nested.prems]
  have "n \<in> set (tags (Tag cls ident children))" by simp
  then show ?case using nested.hyps(1) by (rule concat_memberI)
qed

lemma element_of_tag_iff:
  "element_of (Tag c i ch) doc \<longleftrightarrow> Tag c i ch \<in> set (concat (map tags doc))"
proof
  assume "element_of (Tag c i ch) doc"
  then show "Tag c i ch \<in> set (concat (map tags doc))" by (rule element_of_tags) simp
next
  assume "Tag c i ch \<in> set (concat (map tags doc))"
  then obtain n where n: "n \<in> set doc" "Tag c i ch \<in> set (tags n)" by auto
  from n(2) have "element_of (Tag c i ch) [n]" by (rule tags_element_of)
  then show "element_of (Tag c i ch) doc" by (rule element_of_mono) (use n(1) in simp)
qed

lemma strings_element_of: "s \<in> set (all_strings n) \<Longrightarrow> element_of (NavigableString s) [n]"
proof (induction n)
  case (Tag cls ident children)
  then obtain m where m: "m \<in> set children" "s \<in> set (all_strings m)" by auto
  then have "element_of (NavigableString s) [m]" by (rule Tag.IH)
  then have "element_of (NavigableString s) children"
    by (rule element_of_mono) (use m(1) in simp)
  then show ?case by (rule element_of.nested [of cls ident children, rotated]) simp
next
  case (NavigableString x)
  then show ?case by (simp add: element_of.top)
next
  case (OtherString x)
  then show ?case by simp
qed

lemma element_of_strings:
  "element_of n doc \<Longrightarrow> n = NavigableString s \<Longrightarrow> s \<in> set (concat (map all_strings doc))"
proof (induction rule: element_of.induct)
  case (top n doc)
  have "s \<in> set (all_strings n)" using top.prems by simp
  then show ?case using top.hyps by (rule concat_memberI)
next
  case (nested cls ident children doc n)
  from nested.IH [OF nested.prems]
  have "s \<in> set (all_strings (Tag cls ident children))" by simp
  then show ?case using nested.hyps(1) by (rule concat_memberI)
qed

lemma element_of_string_iff:
  "element_of (NavigableString s) doc \<longleftrightarrow> s \<in> set (concat (map all_strings doc))"
proof
  assume "element_of (NavigableString s) doc"
  then show "s \<in> set (concat (map all_strings doc))" by (rule element_of_strings) simp
next
  assume "s \<in> set (concat (map all_strings doc))"
  then obtain n where n: "n \<in> set doc" "s \<in> set (all_strings n)" by auto
  from n(2) have "element_of (NavigableString s) [n]" by (rule strings_element_of)
  then show "element_of (NavigableString s) doc"
    by (rule element_of_mono) (use n(1) in simp)
qed

section \<open>Output formats\<close>

text \<open>
  C6. An \<open>output_format\<close> other than \<open>"html"\<close>, \<open>"markdown"\<close> and \<open>"text"\<close> makes
  \<open>convert_content\<close> return the extracted markup unchanged, and a request that does
  not give the parameter is handled as \<open>"text"\<close>.
\<close>

theorem convert_content_fallback:
  "(fmt \<noteq> u ''html'' \<and> fmt \<noteq> u ''markdown'' \<and> fmt \<noteq> u ''text'' \<longrightarrow>
      convert_content rt (PStr html) fmt = Inr html) \<and>
   extract_content rt url None = extract_content rt url (Some (u ''text''))"
  by (simp add: convert_content_def extract_content_def)

theorem convert_content_fallback_witness:
  "convert_content rt0 (PStr page_html) (u ''xml'') = Inr page_html \<and>
   extract_content rt0 (u ''http://example.com/page'') None =
     extract_content rt0 (u ''http://example.com/page'') (Some (u ''text''))"
  using convert_content_fallback [of "u ''xml''" rt0 page_html "u ''http://example.com/page''"]
  by (simp add: u_def)

lemma join_Nil_iff: "\<forall>x \<in> set xs. x \<noteq> [] \<Longrightarrow> join sep xs = [] \<longleftrightarrow> xs = []"
  by (induction sep xs rule: join.induct) auto

lemma join_append:
  "xs \<noteq> [] \<Longrightarrow> ys \<noteq> [] \<Longrightarrow> join sep (xs @ ys) = join sep xs @ sep @ join sep ys"
proof (induction sep xs rule: join.induct)
  case (1 sep)
  then show ?case by simp
next
  case (2 sep x)
  then show ?case by (cases ys) simp_all
next
  case (3 sep x y zs)
  then show ?case by simp
qed

lemma get_text_pieces:
  "get_text sep True doc =
     join sep (filter (\<lambda>s. s \<noteq> []) (map strip (concat (map all_strings doc))))"
  by (simp add: get_text_def)

lemma get_text_append:
  "get_text sep True (d1 @ d2) =
     (if get_text sep True d1 = [] then get_text sep True d2
      else if get_text sep True d2 = [] then get_text sep True d1
      else get_text sep True d1 @ sep @ get_text sep True d2)"
proof -
  define p where "p = (\<lambda>d. filter (\<lambda>s. s \<noteq> []) (map strip (concat (map all_strings d))))"
  have g: "get_text sep True d = join sep (p d)" for d
    by (simp add: get_text_pieces p_def)
  have ne: "\<forall>x \<in> set (p d). x \<noteq> []" for d by (simp add: p_def)
  have e: "join sep (p d) = [] \<longleftrightarrow> p d = []" for d
    using ne by (rule join_Nil_iff)
  have app: "p (d1 @ d2) = p d1 @ p d2" by (simp add: p_def)
  show ?thesis
  proof (cases "p d1 = []")
    case True
    then show ?thesis unfolding g app by simp
  next
    case False
    note f = this
    show ?thesis
    proof (cases "p d2 = []")
      case True
      then show ?thesis using f unfolding g app e by simp
    next
      case False
      have "join sep (p d1 @ p d2) = join sep (p d1) @ sep @ join sep (p d2)"
        using f False by (rule join_append)
      then show ?thesis using f False unfolding g app e by simp
    qed
  qed
qed

lemma get_text_chars:
  assumes "c \<in> set (get_text [NL] True doc)"
  shows "c = NL \<or> (\<exists>t. element_of (NavigableString t) doc \<and> c \<in> set t)"
proof -
  let ?strings = "concat (map all_strings doc)"
  let ?pieces = "filter (\<lambda>s. s \<noteq> []) (map strip ?strings)"
  from assms set_join [of "[NL]" ?pieces]
  have "c = NL \<or> (\<exists>p \<in> set ?pieces. c \<in> set p)" by (auto simp: get_text_pieces)
  then have "c = NL \<or> (\<exists>t \<in> set ?strings. c \<in> set t)" using set_strip by fastforce
  then show ?thesis by (auto simp: element_of_string_iff)
qed

text \<open>
  C7. The claim: the output for \<open>"text"\<close> contains no markup tags. The code returns
  the text nodes as the parser gives them, and a text node may itself read like a
  tag: \<open>&lt;b&gt;\<close> in the markup is the text \<open><b>\<close>. As amended: when the parser accepts
  the markup, the output is the text nodes of the document in order, each stripped
  of surrounding whitespace, the empty ones dropped, joined with newlines; tags,
  attributes and the other string kinds give no character, so every character of
  the output is a separating newline or comes from a text node, and the output
  holds \<open><\<close> only if a text node does; when the parser raises, so does the
  conversion.
\<close>

theorem convert_content_text:
  "(soup rt html = Inr doc \<longrightarrow>
      convert_content rt (PStr html) (u ''text'') = Inr (get_text [10] True doc)) \<and>
   (soup rt html = Inl e \<longrightarrow> convert_content rt (PStr html) (u ''text'') = Inl e) \<and>
   get_text [10] True [] = [] \<and>
   get_text [10] True [NavigableString s] = strip s \<and>
   get_text [10] True [OtherString s] = [] \<and>
   get_text [10] True [Tag cls ident children] = get_text [10] True children \<and>
   get_text [10] True (d1 @ d2) =
     (if get_text [10] True d1 = [] then get_text [10] True d2
      else if get_text [10] True d2 = [] then get_text [10] True d1
      else get_text [10] True d1 @ [10] @ get_text [10] True d2) \<and>
   (\<forall>c \<in> set (get_text [10] True doc).
      c = 10 \<or> (\<exists>t. element_of (NavigableString t) doc \<and> c \<in> set t)) \<and>
   ((\<forall>t. element_of (NavigableString t) doc \<longrightarrow> 60 \<notin> set t) \<longrightarrow>
      60 \<notin> set (get_text [10] True doc))"
proof -
  have nl: "NL = 10" by (simp add: NL_def)
  have chars: "\<forall>c \<in> set (get_text [10] True doc).
      c = 10 \<or> (\<exists>t. element_of (NavigableString t) doc \<and> c \<in> set t)"
    using get_text_chars [of _ doc] unfolding nl by blast
  have lt: "(\<forall>t. element_of (NavigableString t) doc \<longrightarrow> 60 \<notin> set t) \<longrightarrow>
      60 \<notin> set (get_text [10] True doc)"
  proof (intro impI notI)
    assume a: "\<forall>t. element_of (NavigableString t) doc \<longrightarrow> 60 \<notin> set t"
      and b: "60 \<in> set (get_text [10] True doc)"
    from chars b have "(60::nat) = 10 \<or> (\<exists>t. element_of (NavigableString t) doc \<and> 60 \<in> set t)"
      by blast
    then show False using a by auto
  qed
  have conv: "soup rt html = Inr doc \<longrightarrow>
      convert_content rt (PStr html) (u ''text'') = Inr (get_text [10] True doc)"
    "soup rt html = Inl e \<longrightarrow> convert_content rt (PStr html) (u ''text'') = Inl e"
    by (simp_all add: convert_content_def u_def NL_def)
  have eqs: "get_text [10] True [] = []" "get_text [10] True [NavigableString s] = strip s"
    "get_text [10] True [OtherString s] = []"
    "get_text [10] True [Tag cls ident children] = get_text [10] True children"
    by (simp_all add: get_text_def)
  show ?thesis
    using conv eqs get_text_append [of "[10]" d1 d2] chars lt by (intro conjI)
qed

lemma rt0_soup:
  "soup rt0 page_html =
     Inr [Tag None None [NavigableString (u ''Title'')],
          Tag None None [NavigableString (u ''Text'')]]"
  "soup rt0 forum_html =
     Inr [Tag (Some [u ''Forum-List'']) (Some (u ''main''))
            [Tag None None [NavigableString (u '' Hi '')], OtherString (u ''x'')]]"
  "soup rt0 nested_html =
     Inr [Tag None None
            [Tag None None [Tag None (Some (u ''Topic-7'')) [NavigableString (u ''x'')]]]]"
  "soup rt0 cjk_html =
     Inr [Tag None None [Tag None (Some [0x8BBA, 0x575B]) [NavigableString (u ''x'')]]]"
  "soup rt0 entity_html = Inr [Tag None None [NavigableString (u ''a <b> c'')]]"
  "soup rt0 rejected_html = Inl (OtherError (u ''ParserRejectedMarkup''))"
  "soup rt0 [] = Inr []"
  by (simp_all add: rt0_def sample_soup_def page_html_def forum_html_def nested_html_def
      cjk_html_def entity_html_def rejected_html_def u_def)

text \<open>
  The markup \<open><p>a &lt;b&gt; c</p>\<close>: its one text node is \<open>a <b> c\<close>, and that is
  the text output, tag and all.
\<close>

theorem text_with_tag_counterexample:
  "soup rt0 entity_html = Inr [Tag None None [NavigableString (u ''a <b> c'')]] \<and>
   convert_content rt0 (PStr entity_html) (u ''text'') = Inr (u ''a <b> c'') \<and>
   sublist (u ''<b>'') (u ''a <b> c'')"
proof -
  have "get_text [NL] True [Tag None None [NavigableString (u ''a <b> c'')]] = u ''a <b> c''"
    by (simp add: get_text_def u_def strip_def isspace_def)
  then have "convert_content rt0 (PStr entity_html) (u ''text'') = Inr (u ''a <b> c'')"
    by (simp add: convert_content_def rt0_soup(5) u_def)
  moreover have "sublist (u ''<b>'') (u ''a <b> c'')"
    by (simp add: u_def sublist_code)
  ultimately show ?thesis using rt0_soup(5) by simp
qed

theorem convert_content_text_witness:
  "convert_content rt0 (PStr forum_html) (u ''text'') = Inr (u ''Hi'') \<and>
   convert_content rt0 (PStr rejected_html) (u ''text'') =
     Inl (OtherError (u ''ParserRejectedMarkup'')) \<and>
   60 \<notin> set (get_text [10] True [Tag None None [NavigableString (u ''Title'')]])"
proof -
  let ?doc = "[Tag (Some [u ''Forum-List'']) (Some (u ''main''))
            [Tag None None [NavigableString (u '' Hi '')], OtherString (u ''x'')]]"
  let ?t = "[Tag None None [NavigableString (u ''Title'')]]"
  have ev: "get_text [10] True ?doc = u ''Hi''"
    by (simp add: get_text_def u_def strip_def isspace_def)
  have 1: "convert_content rt0 (PStr forum_html) (u ''text'') = Inr (u ''Hi'')"
    using convert_content_text [where rt = rt0 and html = forum_html and doc = ?doc,
        THEN conjunct1, THEN mp, OF rt0_soup(2)]
    unfolding ev .
  have 2: "convert_content rt0 (PStr rejected_html) (u ''text'') =
      Inl (OtherError (u ''ParserRejectedMarkup''))"
    using convert_content_text [where rt = rt0 and html = rejected_html,
        THEN conjunct2, THEN conjunct1, THEN mp, OF rt0_soup(6)] .
  have h: "\<forall>t. element_of (NavigableString t) ?t \<longrightarrow> 60 \<notin> set t"
    by (auto simp: element_of_string_iff u_def)
  have 3: "60 \<notin> set (get_text [10] True ?t)"
    using convert_content_text [where doc = ?t, THEN conjunct2, THEN conjunct2,
        THEN conjunct2, THEN conjunct2, THEN conjunct2, THEN conjunct2, THEN conjunct2,
        THEN conjunct2, THEN mp, OF h] .
  from 1 2 3 show ?thesis by (intro conjI)
qed

section \<open>Extraction results without markup\<close>

lemma extract_html_content_empty:
  "(\<forall>d. data \<noteq> PDict d) \<or> (\<exists>d. data = PDict d \<and> d (u ''html'') = None) \<Longrightarrow>
   extract_html_content data = PStr []"
  by (cases data) (auto simp: extract_html_content_def dict_get_def)

text \<open>
  C8. When the extractor returns a value that is not a dict, or a dict without the
  key \<open>html\<close>, the extracted markup is the empty string and the endpoint answers with
  a payload (\<open>success = True\<close>), not an error: its content is the conversion of the
  empty string, which is empty for the formats that copy the markup, and empty for
  \<open>markdown\<close> and \<open>text\<close> as soon as markdownify returns only whitespace for the empty
  string and the parser finds no text in it. (The libraries are taken not to raise
  on the page and on the empty string.)
\<close>

theorem missing_html_empty_content:
  assumes fetch: "fetch_url rt url = Inr html"
    and det: "detect_html_type rt html url = Inr ty"
    and ext: "extractor_extract rt html url ty = Inr data"
    and nohtml: "(\<forall>d. data \<noteq> PDict d) \<or> (\<exists>d. data = PDict d \<and> d (u ''html'') = None)"
    and md: "markdownify rt [] = Inr m"
    and sp: "fmt = None \<or> fmt = Some (u ''text'') \<Longrightarrow> soup rt [] = Inr doc"
  shows "extract_html_content data = PStr [] \<and>
    (\<exists>c. extract_content rt url fmt =
        Inr \<lparr>p_url = url, p_content = c,
             p_format = (case fmt of None \<Rightarrow> u ''text'' | Some f \<Rightarrow> f),
             p_type = ty, success = True\<rparr> \<and>
       c = (if fmt = Some (u ''markdown'') then clean_markdown m
            else if fmt = None \<or> fmt = Some (u ''text'')
            then get_text [NL] True doc
            else []) \<and>
       ((\<forall>x \<in> set m. isspace x) \<and> concat (map all_strings doc) = [] \<longrightarrow> c = []))"
proof -
  have e: "extract_html_content data = PStr []"
    using nohtml by (rule extract_html_content_empty)
  have neq: "u ''markdown'' \<noteq> u ''html''" "u ''text'' \<noteq> u ''html''"
    "u ''text'' \<noteq> u ''markdown''"
    by (simp_all add: u_def)
  have conv: "convert_content rt (PStr []) f =
      Inr (if f = u ''markdown'' then clean_markdown m
           else if f = u ''text'' then get_text [NL] True doc else [])"
    if "f = u ''text'' \<Longrightarrow> soup rt [] = Inr doc" for f
    using neq that by (simp add: convert_content_def md)
  have run: "extract_content rt url fmt =
      Inr \<lparr>p_url = url,
           p_content = (if fmt = Some (u ''markdown'') then clean_markdown m
              else if fmt = None \<or> fmt = Some (u ''text'')
              then get_text [NL] True doc else []),
           p_format = (case fmt of None \<Rightarrow> u ''text'' | Some f \<Rightarrow> f),
           p_type = ty, success = True\<rparr>"
  proof (cases fmt)
    case None
    then have "soup rt [] = Inr doc" using sp by simp
    then show ?thesis
      using neq None
      by (simp add: extract_content_def extract_content_try_def fetch det ext e conv)
  next
    case (Some f)
    have "f = u ''text'' \<Longrightarrow> soup rt [] = Inr doc" using sp Some by simp
    then show ?thesis
      using neq Some
      by (simp add: extract_content_def extract_content_try_def fetch det ext e conv)
  qed
  have empty1: "clean_markdown m = []" if "\<forall>x \<in> set m. isspace x"
    using that by (rule clean_markdown_all_space)
  have empty2: "get_text [NL] True doc = []"
    if "concat (map all_strings doc) = []"
    unfolding get_text_def Let_def that by simp
  show ?thesis using e run empty1 empty2 by auto
qed

theorem missing_html_empty_content_witness:
  "fetch_url rt0 (u ''http://example.com/page'') = Inr page_html \<and>
   extract_content (rt0\<lparr>extractor_extract := (\<lambda>h b t. Inr PNone)\<rparr>)
       (u ''http://example.com/page'') (Some (u ''markdown'')) =
     Inr \<lparr>p_url = u ''http://example.com/page'', p_content = [],
          p_format = u ''markdown'', p_type = u ''article'', success = True\<rparr> \<and>
   extract_content (rt0\<lparr>extractor_extract := (\<lambda>h b t. Inr (PDict Map.empty))\<rparr>)
       (u ''http://example.com/page'') None =
     Inr \<lparr>p_url = u ''http://example.com/page'', p_content = [],
          p_format = u ''text'', p_type = u ''article'', success = True\<rparr>"
proof -
  let ?url = "u ''http://example.com/page''"
  let ?rt1 = "rt0\<lparr>extractor_extract := (\<lambda>h b t. Inr PNone)\<rparr>"
  let ?rt2 = "rt0\<lparr>extractor_extract := (\<lambda>h b t. Inr (PDict Map.empty))\<rparr>"
  note fetch_defs = fetch_url_def fetch_url_try_def rt0_def sample_get_def
    raise_for_status_def decode_declared_def header_charset_def dict_get_def lower_def
    ascii_lower_def sublist_code sample_decode_def page_html_def u_def
  note detect_defs = detect_html_type_def classes_and_ids_def weixin_domains_def
    forum_indicators_def lower_def ascii_lower_def sublist_code rt0_def sample_soup_def
    page_html_def u_def
  have f0: "fetch_url rt0 ?url = Inr page_html" by (simp add: fetch_defs)
  have f1: "fetch_url ?rt1 ?url = Inr page_html" by (simp add: fetch_defs)
  have f2: "fetch_url ?rt2 ?url = Inr page_html" by (simp add: fetch_defs)
  have t1: "detect_html_type ?rt1 page_html ?url = Inr (u ''article'')"
    by (simp add: detect_defs)
  have t2: "detect_html_type ?rt2 page_html ?url = Inr (u ''article'')"
    by (simp add: detect_defs)
  have m1: "markdownify ?rt1 [] = Inr []" and m2: "markdownify ?rt2 [] = Inr []"
    by (simp_all add: rt0_def sample_markdownify_def page_html_def u_def)
  have s1: "soup ?rt1 [] = Inr []" and s2: "soup ?rt2 [] = Inr []"
    using rt0_soup(7) by simp_all
  have x1: "extractor_extract ?rt1 page_html ?url (u ''article'') = Inr PNone" by simp
  have n1: "(\<forall>d. PNone \<noteq> PDict d) \<or> (\<exists>d. PNone = PDict d \<and> d (u ''html'') = None)"
    by simp
  have x2: "extractor_extract ?rt2 page_html ?url (u ''article'') = Inr (PDict Map.empty)"
    by simp
  have n2: "(\<forall>d. PDict Map.empty \<noteq> PDict d) \<or>
      (\<exists>d. PDict Map.empty = PDict d \<and> d (u ''html'') = None)"
    by simp
  have s: "concat (map all_strings ([]::node list)) = []" by simp
  have 1: "extract_content ?rt1 ?url (Some (u ''markdown'')) =
     Inr \<lparr>p_url = ?url, p_content = [],
          p_format = u ''markdown'', p_type = u ''article'', success = True\<rparr>"
    using missing_html_empty_content [OF f1 t1 x1 n1 m1 s1, of "Some (u ''markdown'')"] s
    by auto
  have 2: "extract_content ?rt2 ?url None =
     Inr \<lparr>p_url = ?url, p_content = [],
          p_format = u ''text'', p_type = u ''article'', success = True\<rparr>"
    using missing_html_empty_content [OF f2 t2 x2 n2 m2 s2, of None] s
    by auto
  from f0 1 2 show ?thesis by (intro conjI)
qed

section \<open>Decoding in \<open>fetch_url\<close>\<close>

lemma fetch_url_try_ok:
  assumes "http_get rt url = Inr r" and "raise_for_status r = None"
  shows "fetch_url_try rt url =
    (case decode_declared rt r of
       Some s \<Rightarrow> Inr s
     | None \<Rightarrow>
         (case decode rt (content r) (u ''utf-8'') of
            Inr s \<Rightarrow> Inr s
          | Inl UnicodeDecodeError \<Rightarrow> decode_detected rt (content r)
          | Inl e \<Rightarrow> Inl e))"
  using assms by (simp add: fetch_url_try_def)

lemma decode_declared_Some:
  "header_charset rt r = Some cs \<Longrightarrow> decode rt (content r) cs = Inr s \<Longrightarrow>
   decode_declared rt r = Some s"
  by (simp add: decode_declared_def)

lemma decode_declared_None:
  "header_charset rt r = None \<or>
     (\<exists>cs e. header_charset rt r = Some cs \<and> decode rt (content r) cs = Inl e) \<Longrightarrow>
   decode_declared rt r = None"
  by (auto simp: decode_declared_def)

lemma detected_encoding_gb:
  assumes "chardet_detect rt c = Some e" and "lower rt e \<in> {u ''gb2312'', u ''gbk''}"
  shows "detected_encoding rt c = u ''gb18030''"
proof -
  have "e \<noteq> []"
  proof
    assume "e = []"
    then have "lower rt e = []" by (simp add: lower_def)
    then show False using assms(2) by (simp add: u_def)
  qed
  then show ?thesis using assms by (auto simp: detected_encoding_def str_or_def u_def)
qed

text \<open>
  C2. The claim: a body whose Content-Type declares \<open>charset=gb2312\<close> is decoded
  with GB18030. The code hands the declared name to \<open>bytes.decode\<close> as it stands
  (lines 24-25) and returns that result; GB18030 is substituted only for an encoding
  that chardet detected (lines 39-40), which is reached when the header gives no
  usable charset and UTF-8 fails. So, as amended: with \<open>charset=gb2312\<close> declared the
  result is the one of the \<open>gb2312\<close> codec whenever that codec succeeds, and the
  result is the one of the \<open>gb18030\<close> codec when the header attempt and UTF-8 both
  fail and the detector reports GB2312 or GBK.
\<close>

theorem declared_charset_used:
  assumes get: "http_get rt url = Inr r" and ok: "raise_for_status r = None"
  shows "(header_charset rt r = Some (u ''gb2312'') \<and>
            decode rt (content r) (u ''gb2312'') = Inr s \<longrightarrow>
          fetch_url rt url = Inr s) \<and>
         ((header_charset rt r = None \<or>
             (\<exists>cs x. header_charset rt r = Some cs \<and> decode rt (content r) cs = Inl x)) \<and>
          decode rt (content r) (u ''utf-8'') = Inl UnicodeDecodeError \<and>
          chardet_detect rt (content r) = Some e \<and> lower rt e \<in> {u ''gb2312'', u ''gbk''} \<longrightarrow>
          fetch_url_try rt url = decode rt (content r) (u ''gb18030''))"
proof (intro conjI impI)
  assume "header_charset rt r = Some (u ''gb2312'') \<and>
    decode rt (content r) (u ''gb2312'') = Inr s"
  then have "decode_declared rt r = Some s" by (simp add: decode_declared_Some)
  then show "fetch_url rt url = Inr s"
    by (simp add: fetch_url_def fetch_url_try_ok [OF get ok])
next
  assume a: "(header_charset rt r = None \<or>
       (\<exists>cs x. header_charset rt r = Some cs \<and> decode rt (content r) cs = Inl x)) \<and>
    decode rt (content r) (u ''utf-8'') = Inl UnicodeDecodeError \<and>
    chardet_detect rt (content r) = Some e \<and> lower rt e \<in> {u ''gb2312'', u ''gbk''}"
  then have n: "decode_declared rt r = None" by (intro decode_declared_None) simp
  from a have d: "detected_encoding rt (content r) = u ''gb18030''"
    by (intro detected_encoding_gb [of rt "content r" e]) simp_all
  from a have u8: "decode rt (content r) (u ''utf-8'') = Inl UnicodeDecodeError" by simp
  show "fetch_url_try rt url = decode rt (content r) (u ''gb18030'')"
    by (simp add: fetch_url_try_ok [OF get ok] n u8 decode_detected_def d)
qed

lemma detected_encoding_other:
  "chardet_detect rt c = None \<or> chardet_detect rt c = Some [] \<Longrightarrow>
   detected_encoding rt c = u ''utf-8''"
  by (auto simp: detected_encoding_def str_or_def)

lemma detected_encoding_kept:
  "chardet_detect rt c = Some e \<Longrightarrow> e \<noteq> [] \<Longrightarrow> lower rt e \<notin> {u ''gb2312'', u ''gbk''} \<Longrightarrow>
   detected_encoding rt c = e"
  by (auto simp: detected_encoding_def str_or_def)

lemma rt0_get:
  "http_get rt0 (u ''http://example.com/gb'') =
     Inr \<lparr>status_code = 200,
          headers = [u ''content-type'' \<mapsto> u ''text/html; charset=GB2312''],
          content = [0xA1, 0xA4]\<rparr>"
  "http_get rt0 (u ''http://example.com/poem'') =
     Inr \<lparr>status_code = 200, headers = Map.empty, content = poem_bytes\<rparr>"
  "http_get rt0 (u ''http://example.com/utf16'') =
     Inr \<lparr>status_code = 200, headers = Map.empty, content = [0xFF, 0xFE, 0x41, 0x00]\<rparr>"
  "http_get rt0 (u ''http://example.com/cut'') =
     Inr \<lparr>status_code = 200, headers = Map.empty, content = [0xFF, 0xFE, 0x41]\<rparr>"
  "http_get rt0 (u ''http://example.com/odd'') =
     Inr \<lparr>status_code = 200,
          headers = [u ''content-type'' \<mapsto> u ''text/html; charset=x-unknown''],
          content = page_html\<rparr>"
  "http_get rt0 (u ''http://example.com/board'') =
     Inr \<lparr>status_code = 200, headers = Map.empty, content = forum_html\<rparr>"
  "http_get rt0 (u ''http://example.com/missing'') =
     Inr \<lparr>status_code = 404, headers = Map.empty, content = []\<rparr>"
  "http_get rt0 (u ''http://unreachable.invalid/'') = Inl (OtherError (u ''ConnectError''))"
  by (simp_all add: rt0_def sample_get_def u_def)

lemma rt0_charset:
  "header_charset rt0 \<lparr>status_code = 200,
          headers = [u ''content-type'' \<mapsto> u ''text/html; charset=GB2312''],
          content = c\<rparr> = Some (u ''gb2312'')"
  "header_charset rt0 \<lparr>status_code = 200,
          headers = [u ''content-type'' \<mapsto> u ''text/html; charset=x-unknown''],
          content = c\<rparr> = Some (u ''x-unknown'')"
  "header_charset rt0 \<lparr>status_code = 200, headers = Map.empty, content = c\<rparr> = None"
  by (simp_all add: header_charset_def dict_get_def lower_def ascii_lower_def sublist_code
      u_def)

lemma rt0_decode:
  "decode rt0 [0xA1, 0xA4] (u ''gb2312'') = Inr [0x30FB]"
  "decode rt0 [0xA1, 0xA4] (u ''gb18030'') = Inr [0xB7]"
  "decode rt0 poem_bytes (u ''utf-8'') = Inl UnicodeDecodeError"
  "decode rt0 poem_bytes (u ''gb18030'') = Inr poem_text"
  "decode rt0 [0xFF, 0xFE, 0x41, 0x00] (u ''utf-8'') = Inl UnicodeDecodeError"
  "decode rt0 [0xFF, 0xFE, 0x41, 0x00] (u ''UTF-16'') = Inr [0x41]"
  "decode rt0 [0xFF, 0xFE, 0x41] (u ''utf-8'') = Inl UnicodeDecodeError"
  "decode rt0 [0xFF, 0xFE, 0x41] (u ''UTF-16'') = Inl UnicodeDecodeError"
  "decode rt0 page_html (u ''x-unknown'') = Inl (OtherError (u ''LookupError''))"
  "decode rt0 page_html (u ''utf-8'') = Inr page_html"
  "decode rt0 forum_html (u ''utf-8'') = Inr forum_html"
  by (simp_all add: rt0_def sample_decode_def poem_bytes_def page_html_def forum_html_def
      u_def)

lemma rt0_detect:
  "chardet_detect rt0 poem_bytes = Some (u ''GB2312'')"
  "chardet_detect rt0 [0xFF, 0xFE, 0x41, 0x00] = Some (u ''UTF-16'')"
  "chardet_detect rt0 [0xFF, 0xFE, 0x41] = Some (u ''UTF-16'')"
  by (simp_all add: rt0_def sample_detect_def poem_bytes_def)

lemma rt0_detected_encoding:
  "detected_encoding rt0 poem_bytes = u ''gb18030''"
  "detected_encoding rt0 [0xFF, 0xFE, 0x41, 0x00] = u ''UTF-16''"
  "detected_encoding rt0 [0xFF, 0xFE, 0x41] = u ''UTF-16''"
proof -
  have l: "lower rt0 (u ''GB2312'') \<in> {u ''gb2312'', u ''gbk''}"
    "lower rt0 (u ''UTF-16'') \<notin> {u ''gb2312'', u ''gbk''}" "u ''UTF-16'' \<noteq> []"
    by (simp_all add: lower_def ascii_lower_def u_def)
  show "detected_encoding rt0 poem_bytes = u ''gb18030''"
    using rt0_detect(1) l(1) by (rule detected_encoding_gb)
  show "detected_encoding rt0 [0xFF, 0xFE, 0x41, 0x00] = u ''UTF-16''"
    using rt0_detect(2) l(3) l(2) by (rule detected_encoding_kept)
  show "detected_encoding rt0 [0xFF, 0xFE, 0x41] = u ''UTF-16''"
    using rt0_detect(3) l(3) l(2) by (rule detected_encoding_kept)
qed

lemma ok_200: "raise_for_status \<lparr>status_code = 200, headers = h, content = c\<rparr> = None"
  by (simp add: raise_for_status_def)

lemma rt0_fetch_try:
  "fetch_url_try rt0 (u ''http://example.com/gb'') = Inr [0x30FB]"
  "fetch_url_try rt0 (u ''http://example.com/odd'') = Inr page_html"
  "fetch_url_try rt0 (u ''http://example.com/board'') = Inr forum_html"
  "fetch_url_try rt0 (u ''http://example.com/utf16'') = Inr [0x41]"
  "fetch_url_try rt0 (u ''http://example.com/poem'') = Inr poem_text"
  "fetch_url_try rt0 (u ''http://example.com/cut'') = Inl UnicodeDecodeError"
  "fetch_url_try rt0 (u ''http://example.com/missing'') = Inl (HTTPStatusError 404)"
  "fetch_url_try rt0 (u ''http://unreachable.invalid/'') = Inl (OtherError (u ''ConnectError''))"
proof -
  show "fetch_url_try rt0 (u ''http://example.com/gb'') = Inr [0x30FB]"
    by (simp add: fetch_url_try_ok [OF rt0_get(1) ok_200] decode_declared_def rt0_charset
        rt0_decode)
  show "fetch_url_try rt0 (u ''http://example.com/odd'') = Inr page_html"
    by (simp add: fetch_url_try_ok [OF rt0_get(5) ok_200] decode_declared_def rt0_charset
        rt0_decode)
  show "fetch_url_try rt0 (u ''http://example.com/board'') = Inr forum_html"
    by (simp add: fetch_url_try_ok [OF rt0_get(6) ok_200] decode_declared_def rt0_charset
        rt0_decode)
  show "fetch_url_try rt0 (u ''http://example.com/utf16'') = Inr [0x41]"
    by (simp add: fetch_url_try_ok [OF rt0_get(3) ok_200] decode_declared_def rt0_charset
        rt0_decode decode_detected_def rt0_detected_encoding)
  show "fetch_url_try rt0 (u ''http://example.com/poem'') = Inr poem_text"
    by (simp add: fetch_url_try_ok [OF rt0_get(2) ok_200] decode_declared_def rt0_charset
        rt0_decode decode_detected_def rt0_detected_encoding)
  show "fetch_url_try rt0 (u ''http://example.com/cut'') = Inl UnicodeDecodeError"
    by (simp add: fetch_url_try_ok [OF rt0_get(4) ok_200] decode_declared_def rt0_charset
        rt0_decode decode_detected_def rt0_detected_encoding)
  show "fetch_url_try rt0 (u ''http://example.com/missing'') = Inl (HTTPStatusError 404)"
    by (simp add: fetch_url_try_def rt0_get(7) raise_for_status_def)
  show "fetch_url_try rt0 (u ''http://unreachable.invalid/'') =
      Inl (OtherError (u ''ConnectError''))"
    by (simp add: fetch_url_try_def rt0_get(8))
qed

text \<open>
  The body \<open>A1 A4\<close> served with \<open>charset=GB2312\<close>: the fetcher returns U+30FB, the
  reading of the \<open>gb2312\<close> codec, where \<open>gb18030\<close> reads U+00B7.
\<close>

theorem gb2312_header_counterexample:
  "http_get rt0 (u ''http://example.com/gb'') =
     Inr \<lparr>status_code = 200,
          headers = [u ''content-type'' \<mapsto> u ''text/html; charset=GB2312''],
          content = [0xA1, 0xA4]\<rparr> \<and>
   fetch_url rt0 (u ''http://example.com/gb'') = Inr [0x30FB] \<and>
   decode rt0 [0xA1, 0xA4] (u ''gb2312'') = Inr [0x30FB] \<and>
   decode rt0 [0xA1, 0xA4] (u ''gb18030'') = Inr [0xB7] \<and>
   fetch_url rt0 (u ''http://example.com/gb'') \<noteq> decode rt0 [0xA1, 0xA4] (u ''gb18030'')"
proof -
  have f: "fetch_url rt0 (u ''http://example.com/gb'') = Inr [0x30FB]"
    by (simp add: fetch_url_def rt0_fetch_try(1))
  show ?thesis using f rt0_get(1) rt0_decode(1,2) by simp
qed

theorem declared_charset_used_witness:
  "fetch_url rt0 (u ''http://example.com/gb'') = Inr [0x30FB] \<and>
   fetch_url_try rt0 (u ''http://example.com/poem'') = Inr poem_text"
proof -
  let ?r = "\<lparr>status_code = 200,
          headers = [u ''content-type'' \<mapsto> u ''text/html; charset=GB2312''],
          content = [0xA1, 0xA4]\<rparr>"
  let ?q = "\<lparr>status_code = 200, headers = Map.empty, content = poem_bytes\<rparr>"
  have a: "header_charset rt0 ?r = Some (u ''gb2312'') \<and>
      decode rt0 (content ?r) (u ''gb2312'') = Inr [0x30FB]"
    by (simp add: rt0_charset rt0_decode)
  have 1: "fetch_url rt0 (u ''http://example.com/gb'') = Inr [0x30FB]"
    using declared_charset_used [OF rt0_get(1) ok_200, where s = "[0x30FB]" and e = "[]",
        THEN conjunct1, THEN mp, OF a] .
  have l: "lower rt0 (u ''GB2312'') \<in> {u ''gb2312'', u ''gbk''}"
    by (simp add: lower_def ascii_lower_def u_def)
  have b: "(header_charset rt0 ?q = None \<or>
        (\<exists>cs x. header_charset rt0 ?q = Some cs \<and> decode rt0 (content ?q) cs = Inl x)) \<and>
      decode rt0 (content ?q) (u ''utf-8'') = Inl UnicodeDecodeError \<and>
      chardet_detect rt0 (content ?q) = Some (u ''GB2312'') \<and>
      lower rt0 (u ''GB2312'') \<in> {u ''gb2312'', u ''gbk''}"
    using l by (simp add: rt0_charset rt0_decode rt0_detect)
  have "fetch_url_try rt0 (u ''http://example.com/poem'') =
      decode rt0 (content ?q) (u ''gb18030'')"
    using declared_charset_used [OF rt0_get(2) ok_200, where s = "[]" and e = "u ''GB2312''",
        THEN conjunct2, THEN mp, OF b] .
  then have 2: "fetch_url_try rt0 (u ''http://example.com/poem'') = Inr poem_text"
    by (simp add: rt0_decode)
  from 1 2 show ?thesis by (intro conjI)
qed

text \<open>
  C5. The claim: header charset, then UTF-8, then the detected encoding (GB18030 for a
  detected GB2312 or GBK); a fetch failure is answered with 400 and an unrecoverable
  decode failure with 500. The code decodes in that order, and a decode failure does
  end in a 500 response; but a fetch failure ends in a 500 response as well, because
  the handler's \<open>except Exception\<close> turns the fetcher's \<open>HTTPException(400)\<close> into
  \<open>HTTPException(500)\<close> (the defect of C1). Eight requests: a declared charset, a
  declared charset that no codec has, no declared charset, a body with a UTF-16 byte
  order mark, a GBK body, a truncated UTF-16 body, and two failing fetches.
\<close>

theorem fetch_failure_endpoint_status:
  "fetch_url rt0 (u ''http://example.com/gb'') = Inr [0x30FB] \<and>
   fetch_url rt0 (u ''http://example.com/odd'') = Inr page_html \<and>
   fetch_url rt0 (u ''http://example.com/board'') = Inr forum_html \<and>
   fetch_url rt0 (u ''http://example.com/utf16'') = Inr [0x41] \<and>
   fetch_url rt0 (u ''http://example.com/poem'') = Inr poem_text \<and>
   fetch_url rt0 (u ''http://example.com/cut'') =
     Inl (HTTPException 400 (u ''Error fetching URL: UnicodeDecodeError'')) \<and>
   http_status (extract_content rt0 (u ''http://example.com/cut'') None) = 500 \<and>
   fetch_url rt0 (u ''http://example.com/missing'') =
     Inl (HTTPException 400 (u ''Error fetching URL: HTTPStatusError'')) \<and>
   http_status (extract_content rt0 (u ''http://example.com/missing'') None) = 500 \<and>
   fetch_url rt0 (u ''http://unreachable.invalid/'') =
     Inl (HTTPException 400 (u ''Error fetching URL: ConnectError'')) \<and>
   http_status (extract_content rt0 (u ''http://unreachable.invalid/'') None) = 500"
proof -
  have ok: "fetch_url rt0 (u ''http://example.com/gb'') = Inr [0x30FB]"
    "fetch_url rt0 (u ''http://example.com/odd'') = Inr page_html"
    "fetch_url rt0 (u ''http://example.com/board'') = Inr forum_html"
    "fetch_url rt0 (u ''http://example.com/utf16'') = Inr [0x41]"
    "fetch_url rt0 (u ''http://example.com/poem'') = Inr poem_text"
    by (simp_all add: fetch_url_def rt0_fetch_try)
  have bad: "fetch_url rt0 (u ''http://example.com/cut'') =
     Inl (HTTPException 400 (u ''Error fetching URL: UnicodeDecodeError''))"
    "fetch_url rt0 (u ''http://example.com/missing'') =
     Inl (HTTPException 400 (u ''Error fetching URL: HTTPStatusError''))"
    "fetch_url rt0 (u ''http://unreachable.invalid/'') =
     Inl (HTTPException 400 (u ''Error fetching URL: ConnectError''))"
    by (simp_all add: fetch_url_def rt0_fetch_try) (simp_all add: rt0_def sample_exc_str_def u_def)
  show ?thesis
    using ok bad fetch_failure_status [OF rt0_fetch_try(6)]
      fetch_failure_status [OF rt0_fetch_try(7)] fetch_failure_status [OF rt0_fetch_try(8)]
    by (intro conjI)
qed

section \<open>The type classifier\<close>

lemma lower_from_append:
  "lower_from rt s i (a @ b) = lower_from rt s i a @ lower_from rt s (i + length a) b"
  by (induction a arbitrary: i) simp_all

lemma lower_from_ascii:
  "\<forall>c \<in> set m. c < 128 \<Longrightarrow> lower_from rt s i m = map ascii_lower m"
  by (induction m arbitrary: i) simp_all

lemma ascii_lower_ascii: "ascii_lower c < 128 \<Longrightarrow> c < 128"
  by (simp add: ascii_lower_def split: if_splits)

lemma sublist_lower:
  assumes "sublist v s" and "\<forall>c \<in> set (map ascii_lower v). c < 128"
  shows "sublist (map ascii_lower v) (lower rt s)"
proof -
  from assms(1) obtain pre suf where s: "s = pre @ v @ suf"
    by (auto simp: sublist_def)
  have a: "\<forall>c \<in> set v. c < 128"
    using assms(2) by (auto dest: ascii_lower_ascii)
  have "lower_from rt s0 0 (pre @ v @ suf) =
      lower_from rt s0 0 pre @ map ascii_lower v @ lower_from rt s0 (length pre + length v) suf"
    for s0
    by (simp add: lower_from_append lower_from_ascii [OF a])
  then have "lower rt s = lower_from rt s 0 pre @ map ascii_lower v @
      lower_from rt s (length pre + length v) suf"
    unfolding lower_def s by blast
  then show ?thesis unfolding sublist_def by blast
qed

lemma sublist_join: "x \<in> set xs \<Longrightarrow> sublist x (join sep xs)"
proof (induction sep xs rule: join.induct)
  case (1 sep)
  then show ?case by simp
next
  case (2 sep y)
  then show ?case by simp
next
  case (3 sep y z zs)
  show ?case
  proof (cases "x = y")
    case True
    then show ?thesis by (simp add: sublist_def) (metis append_Nil)
  next
    case False
    then have "sublist x (join sep (z # zs))" using 3 by simp
    then obtain p q where "join sep (z # zs) = p @ x @ q" by (auto simp: sublist_def)
    then have "join sep (y # z # zs) = (y @ sep @ p) @ x @ q" by simp
    then show ?thesis unfolding sublist_def by blast
  qed
qed

lemma sublist_trans': "sublist a b \<Longrightarrow> sublist b c \<Longrightarrow> sublist a c"
  by (rule sublist_order.order_trans)

lemma labels_distinct:
  "u ''weixin'' \<noteq> u ''forum''" "u ''weixin'' \<noteq> u ''article''" "u ''forum'' \<noteq> u ''article''"
  by (simp_all add: u_def)

lemma domains_lower:
  "map ascii_lower (u ''mp.weixin.qq.com'') = u ''mp.weixin.qq.com''"
  "map ascii_lower (u ''weixin.qq.com'') = u ''weixin.qq.com''"
  by (simp_all add: u_def ascii_lower_def)

lemma weixin_if_variant:
  assumes "sublist v url"
    and "map ascii_lower v = u ''mp.weixin.qq.com'' \<or> map ascii_lower v = u ''weixin.qq.com''"
  shows "detect_html_type rt html url = Inr (u ''weixin'')"
proof -
  have "\<forall>c \<in> set (map ascii_lower v). c < 128"
    using assms(2) by (auto simp: u_def)
  then have "sublist (map ascii_lower v) (lower rt url)"
    using assms(1) by (intro sublist_lower)
  then show ?thesis
    using assms(2) by (auto simp: detect_html_type_def weixin_domains_def)
qed

text \<open>
  C9. The test for the platform label is a substring test on the whole lower-cased
  URL: the label is \<open>weixin\<close> exactly when \<open>mp.weixin.qq.com\<close> or \<open>weixin.qq.com\<close> occurs
  in \<open>url.lower()\<close>; hence a URL that holds either name anywhere (host, path or
  query), in any mix of upper and lower case, is classified \<open>weixin\<close> whatever the
  page is.
\<close>

theorem weixin_url_match:
  "(detect_html_type rt html url = Inr (u ''weixin'') \<longleftrightarrow>
      sublist (u ''mp.weixin.qq.com'') (lower rt url) \<or>
      sublist (u ''weixin.qq.com'') (lower rt url)) \<and>
   (sublist v url \<and>
      (map ascii_lower v = u ''mp.weixin.qq.com'' \<or> map ascii_lower v = u ''weixin.qq.com'') \<longrightarrow>
    detect_html_type rt html url = Inr (u ''weixin''))"
proof (intro conjI impI)
  show "detect_html_type rt html url = Inr (u ''weixin'') \<longleftrightarrow>
      sublist (u ''mp.weixin.qq.com'') (lower rt url) \<or>
      sublist (u ''weixin.qq.com'') (lower rt url)"
    using labels_distinct
    by (auto simp: detect_html_type_def weixin_domains_def split: if_splits sum.splits)
next
  assume "sublist v url \<and>
      (map ascii_lower v = u ''mp.weixin.qq.com'' \<or> map ascii_lower v = u ''weixin.qq.com'')"
  then show "detect_html_type rt html url = Inr (u ''weixin'')"
    using weixin_if_variant by blast
qed

theorem weixin_url_match_witness:
  "sublist (u ''MP.WEIXIN.QQ.COM'') (u ''http://example.com/?from=MP.WEIXIN.QQ.COM'') \<and>
   detect_html_type rt0 forum_html (u ''http://example.com/?from=MP.WEIXIN.QQ.COM'') =
     Inr (u ''weixin'') \<and>
   detect_html_type rt0 rejected_html (u ''http://example.com/?from=MP.WEIXIN.QQ.COM'') =
     Inr (u ''weixin'')"
proof -
  have s: "sublist (u ''MP.WEIXIN.QQ.COM'') (u ''http://example.com/?from=MP.WEIXIN.QQ.COM'')"
    by (simp add: u_def sublist_code)
  have l: "map ascii_lower (u ''MP.WEIXIN.QQ.COM'') = u ''mp.weixin.qq.com''"
    by (simp add: u_def ascii_lower_def)
  have h: "sublist (u ''MP.WEIXIN.QQ.COM'') (u ''http://example.com/?from=MP.WEIXIN.QQ.COM'') \<and>
      (map ascii_lower (u ''MP.WEIXIN.QQ.COM'') = u ''mp.weixin.qq.com'' \<or>
       map ascii_lower (u ''MP.WEIXIN.QQ.COM'') = u ''weixin.qq.com'')"
    using s l by simp
  have 1: "detect_html_type rt0 forum_html (u ''http://example.com/?from=MP.WEIXIN.QQ.COM'') =
     Inr (u ''weixin'')"
    using weixin_url_match [where rt = rt0 and html = forum_html
        and url = "u ''http://example.com/?from=MP.WEIXIN.QQ.COM''"
        and v = "u ''MP.WEIXIN.QQ.COM''", THEN conjunct2, THEN mp, OF h] .
  have 2: "detect_html_type rt0 rejected_html (u ''http://example.com/?from=MP.WEIXIN.QQ.COM'') =
     Inr (u ''weixin'')"
    using weixin_url_match [where rt = rt0 and html = rejected_html
        and url = "u ''http://example.com/?from=MP.WEIXIN.QQ.COM''"
        and v = "u ''MP.WEIXIN.QQ.COM''", THEN conjunct2, THEN mp, OF h] .
  from s 1 2 show ?thesis by (intro conjI)
qed

lemma element_indicator:
  assumes t: "t \<in> set (concat (map tags doc))"
    and x: "x \<in> set (element_classes t) \<union> set (element_ids t)"
    and v: "sublist v x"
    and k: "map ascii_lower v \<in>
       {u ''forum'', u ''topic'', u ''thread'', u ''post'', u ''reply'', u ''comment'',
        u ''discuss''}"
  shows "\<exists>k \<in> set forum_indicators. sublist k (classes_and_ids rt doc)"
proof -
  let ?els = "concat (map tags doc)"
  let ?all = "concat (map element_classes ?els) @ concat (map element_ids ?els)"
  have "x \<in> set ?all" using t x by auto
  then have "sublist x (join (u '' '') ?all)" by (rule sublist_join)
  with v have vj: "sublist v (join (u '' '') ?all)" by (rule sublist_trans')
  have "\<forall>c \<in> set (map ascii_lower v). c < 128"
    using k by (auto simp: u_def)
  with vj have "sublist (map ascii_lower v) (lower rt (join (u '' '') ?all))"
    by (rule sublist_lower)
  then have "sublist (map ascii_lower v) (classes_and_ids rt doc)"
    by (simp add: classes_and_ids_def Let_def)
  moreover have "map ascii_lower v \<in> set forum_indicators"
    using k by (auto simp: forum_indicators_def)
  ultimately show ?thesis by blast
qed

lemma tags_are_tags: "t \<in> set (tags n) \<Longrightarrow> \<exists>c i ch. t = Tag c i ch"
  by (induction n) auto

lemma token_origin:
  assumes "x \<in> set (concat (map element_classes (concat (map tags doc))) @
                    concat (map element_ids (concat (map tags doc))))"
  shows "\<exists>cls ident children. element_of (Tag cls ident children) doc \<and>
           (ident = Some x \<or> (\<exists>ts. cls = Some ts \<and> x \<in> set ts))"
proof -
  from assms obtain t where t: "t \<in> set (concat (map tags doc))"
    and x: "x \<in> set (element_classes t) \<or> x \<in> set (element_ids t)"
    by auto
  from t obtain n where "n \<in> set doc" "t \<in> set (tags n)" by auto
  then obtain c i ch where tt: "t = Tag c i ch" using tags_are_tags by blast
  have e: "element_of (Tag c i ch) doc" using t unfolding tt by (simp only: element_of_tag_iff)
  from x have "i = Some x \<or> (\<exists>ts. c = Some ts \<and> x \<in> set ts)"
    unfolding tt by (cases c; cases i) auto
  then show ?thesis using e by blast
qed

lemma sublist_sep:
  assumes "sublist k (a @ d # b)" and "d \<notin> set k"
  shows "sublist k a \<or> sublist k b"
  using assms
proof (induction a)
  case Nil
  show ?case
  proof (cases k)
    case Nil
    then show ?thesis by simp
  next
    case (Cons y ys)
    then have "\<not> prefix k (d # b)" using Nil.prems(2) by auto
    then show ?thesis using Nil.prems(1) Cons by (auto simp: sublist_Cons_right)
  qed
next
  case (Cons x a)
  show ?case
  proof (cases k)
    case Nil
    then show ?thesis by simp
  next
    case (Cons y ys)
    from Cons.prems(1) have "prefix k (x # a @ d # b) \<or> sublist k (a @ d # b)"
      unfolding Cons by (simp add: sublist_Cons_right)
    then show ?thesis
    proof
      assume p: "prefix k (x # a @ d # b)"
      have "prefix k (x # a)"
      proof -
        from p obtain r where r: "(x # a) @ d # b = k @ r" by (auto simp: prefix_def)
        have "length k \<le> length (x # a)"
        proof (rule ccontr)
          assume "\<not> length k \<le> length (x # a)"
          then have "length (x # a) < length k" by simp
          then have "k ! length (x # a) = ((x # a) @ d # b) ! length (x # a)"
            unfolding r by (simp add: nth_append)
          then have "k ! length (x # a) = d" by (simp add: nth_append)
          then have "d \<in> set k" using \<open>length (x # a) < length k\<close> nth_mem by metis
          then show False using Cons.prems(2) by simp
        qed
        then have "k = take (length k) (x # a)"
          using r by (metis append_eq_append_conv_if append_eq_conv_conj)
        then show ?thesis by (metis take_is_prefix)
      qed
      then show ?thesis using prefix_imp_sublist by blast
    next
      assume "sublist k (a @ d # b)"
      then have "sublist k a \<or> sublist k b" using Cons.IH Cons.prems(2) by blast
      then show ?thesis by (auto simp: sublist_Cons_right local.Cons)
    qed
  qed
qed

lemma sublist_join_sep:
  assumes "sublist k (join [d] xs)" and "d \<notin> set k" and "k \<noteq> []"
  shows "\<exists>x \<in> set xs. sublist k x"
  using assms
proof (induction "[d]" xs rule: join.induct)
  case 1
  then show ?case by simp
next
  case (2 x)
  then show ?case by simp
next
  case (3 x y ys)
  from "3.prems"(1) have "sublist k (x @ d # join [d] (y # ys))" by simp
  then have "sublist k x \<or> sublist k (join [d] (y # ys))"
    using "3.prems"(2) by (rule sublist_sep)
  then show ?case using "3.hyps" "3.prems"(2,3) by auto
qed

lemma map_lower_join:
  "map ascii_lower (join [32] xs) = join [32] (map (map ascii_lower) xs)"
  by (induction "[32::nat]" xs rule: join.induct) (simp_all add: ascii_lower_def)

lemma ascii_no_indicator:
  assumes ascii: "\<forall>x \<in> set toks. \<forall>c \<in> set x. c < 128"
    and none: "\<forall>x \<in> set toks. \<forall>k \<in> {u ''forum'', u ''topic'', u ''thread'', u ''post'', u ''reply'', u ''comment'',
          u ''discuss''}. \<not> sublist k (map ascii_lower x)"
  shows "\<not> (\<exists>k \<in> set forum_indicators. sublist k (lower rt (join (u '' '') toks)))"
proof
  assume "\<exists>k \<in> set forum_indicators. sublist k (lower rt (join (u '' '') toks))"
  then obtain k where k: "k \<in> set forum_indicators"
    and s: "sublist k (lower rt (join (u '' '') toks))" by blast
  have sp: "u '' '' = [32]" by (simp add: u_def)
  have a: "\<forall>c \<in> set (join [32] toks). c < 128"
    using set_join [of "[32]" toks] ascii by auto
  have l: "lower rt (join [32] toks) = join [32] (map (map ascii_lower) toks)"
    unfolding lower_def lower_from_ascii [OF a] by (rule map_lower_join)
  have s': "sublist k (join [32] (map (map ascii_lower) toks))"
    using s unfolding sp l .
  have low: "\<forall>c \<in> set (join [32] (map (map ascii_lower) toks)). c < 128"
  proof -
    have "set (join [32] (map (map ascii_lower) toks)) = ascii_lower ` set (join [32] toks)"
      unfolding map_lower_join [symmetric] by simp
    then show ?thesis using a by (auto simp: ascii_lower_def)
  qed
  have kk: "\<forall>c \<in> set k. c < 128"
    using set_mono_sublist [OF s'] low by blast
  have "k \<in> {u ''forum'', u ''topic'', u ''thread'', u ''post'', u ''reply'', u ''comment'',
          u ''discuss''}"
    using k kk by (auto simp: forum_indicators_def)
  moreover have "32 \<notin> set k" "k \<noteq> []"
    using \<open>k \<in> {u ''forum'', u ''topic'', u ''thread'', u ''post'', u ''reply'', u ''comment'',
          u ''discuss''}\<close> by (auto simp: u_def)
  ultimately obtain y where "y \<in> set (map (map ascii_lower) toks)" "sublist k y"
    using sublist_join_sep [OF s'] by blast
  then show False using none \<open>k \<in> {u ''forum'', u ''topic'', u ''thread'', u ''post'', u ''reply'', u ''comment'',
          u ''discuss''}\<close> by auto
qed

text \<open>
  C4. The claim: for every HTML document and URL exactly one of the three labels is
  chosen, by the first rule that matches. The rules and their order are as claimed,
  but the page rules need the parsed page, and the parser raises on markup it
  rejects: then no label is chosen. As amended: a URL whose lower-cased form
  contains one of the two domain names is labelled \<open>weixin\<close>, whatever the page and
  without parsing it (so always when it contains \<open>mp.weixin.qq.com\<close>); otherwise,
  when the parser accepts the page, the label is \<open>forum\<close> if one of the twelve
  keywords (seven ASCII, five Chinese) occurs in the class tokens and ids of the
  page's elements, joined with blanks and lower-cased, and \<open>article\<close> if none does;
  when the parser raises, the classifier raises. For elements at any depth: a class
  token or an id that contains an ASCII keyword in any mix of case gives \<open>forum\<close>,
  and a page whose tokens and ids are ASCII and contain no keyword gives \<open>article\<close>.
\<close>

theorem detect_html_type_rules:
  "(detect_html_type rt html url = Inr l \<longrightarrow>
      l = u ''article'' \<or> l = u ''forum'' \<or> l = u ''weixin'') \<and>
   (sublist (u ''mp.weixin.qq.com'') url \<longrightarrow> detect_html_type rt html url = Inr (u ''weixin'')) \<and>
   (sublist (u ''mp.weixin.qq.com'') (lower rt url) \<or>
    sublist (u ''weixin.qq.com'') (lower rt url) \<longrightarrow>
      detect_html_type rt html url = Inr (u ''weixin'')) \<and>
   (\<not> sublist (u ''mp.weixin.qq.com'') (lower rt url) \<and>
    \<not> sublist (u ''weixin.qq.com'') (lower rt url) \<longrightarrow>
      (soup rt html = Inl e \<longrightarrow> detect_html_type rt html url = Inl e) \<and>
      (soup rt html = Inr doc \<longrightarrow>
         ((\<exists>k \<in> set [u ''forum'', u ''topic'', u ''thread'', u ''post'', u ''reply'',
                       u ''comment'', u ''discuss'', [0x8BBA, 0x575B], [0x5E16, 0x5B50],
                       [0x56DE, 0x590D], [0x8BC4, 0x8BBA], [0x8BA8, 0x8BBA]].
              sublist k (classes_and_ids rt doc)) \<longrightarrow>
            detect_html_type rt html url = Inr (u ''forum'')) \<and>
         (\<not> (\<exists>k \<in> set [u ''forum'', u ''topic'', u ''thread'', u ''post'', u ''reply'',
                       u ''comment'', u ''discuss'', [0x8BBA, 0x575B], [0x5E16, 0x5B50],
                       [0x56DE, 0x590D], [0x8BC4, 0x8BBA], [0x8BA8, 0x8BBA]].
              sublist k (classes_and_ids rt doc)) \<longrightarrow>
            detect_html_type rt html url = Inr (u ''article'')) \<and>
         (element_of (Tag cls ident children) doc \<and>
          (ident = Some x \<or> (\<exists>ts. cls = Some ts \<and> x \<in> set ts)) \<and> sublist v x \<and>
          map ascii_lower v \<in> {u ''forum'', u ''topic'', u ''thread'', u ''post'', u ''reply'', u ''comment'',
          u ''discuss''} \<longrightarrow>
            detect_html_type rt html url = Inr (u ''forum'')) \<and>
         ((\<forall>c i ch y. element_of (Tag c i ch) doc \<and>
               (i = Some y \<or> (\<exists>ts. c = Some ts \<and> y \<in> set ts)) \<longrightarrow>
               (\<forall>a \<in> set y. a < 128) \<and>
               (\<forall>k \<in> {u ''forum'', u ''topic'', u ''thread'', u ''post'', u ''reply'', u ''comment'',
          u ''discuss''}. \<not> sublist k (map ascii_lower y))) \<longrightarrow>
            detect_html_type rt html url = Inr (u ''article'')))) \<and>
   classes_and_ids rt doc =
     lower rt (join (u '' '')
       (concat (map element_classes (concat (map tags doc))) @
        concat (map element_ids (concat (map tags doc)))))"
proof -
  let ?kw = "[u ''forum'', u ''topic'', u ''thread'', u ''post'', u ''reply'',
      u ''comment'', u ''discuss'', [0x8BBA, 0x575B], [0x5E16, 0x5B50],
      [0x56DE, 0x590D], [0x8BC4, 0x8BBA], [0x8BA8, 0x8BBA]]"
  let ?toks = "concat (map element_classes (concat (map tags doc))) @
        concat (map element_ids (concat (map tags doc)))"
  have kw: "forum_indicators = ?kw" by (simp add: forum_indicators_def)
  have cai: "classes_and_ids rt doc = lower rt (join (u '' '') ?toks)"
    by (simp add: classes_and_ids_def Let_def)
  have 1: "detect_html_type rt html url = Inr l \<longrightarrow>
      l = u ''article'' \<or> l = u ''forum'' \<or> l = u ''weixin''"
    by (auto simp: detect_html_type_def split: if_splits sum.splits)
  have 2: "sublist (u ''mp.weixin.qq.com'') url \<longrightarrow>
      detect_html_type rt html url = Inr (u ''weixin'')"
    using weixin_if_variant [of "u ''mp.weixin.qq.com''" url rt html] domains_lower by simp
  have 3: "sublist (u ''mp.weixin.qq.com'') (lower rt url) \<or>
    sublist (u ''weixin.qq.com'') (lower rt url) \<longrightarrow>
      detect_html_type rt html url = Inr (u ''weixin'')"
    by (auto simp: detect_html_type_def weixin_domains_def)
  have page: "detect_html_type rt html url =
      (case soup rt html of Inl e \<Rightarrow> Inl e
       | Inr doc \<Rightarrow> if \<exists>k \<in> set ?kw. sublist k (classes_and_ids rt doc)
                    then Inr (u ''forum'') else Inr (u ''article''))"
    if "\<not> sublist (u ''mp.weixin.qq.com'') (lower rt url) \<and>
      \<not> sublist (u ''weixin.qq.com'') (lower rt url)"
    using that unfolding kw [symmetric]
    by (simp add: detect_html_type_def weixin_domains_def list_ex_iff split: sum.splits)
  have el: "\<exists>k \<in> set ?kw. sublist k (classes_and_ids rt doc)"
    if h: "element_of (Tag cls ident children) doc \<and>
          (ident = Some x \<or> (\<exists>ts. cls = Some ts \<and> x \<in> set ts)) \<and> sublist v x \<and>
          map ascii_lower v \<in> {u ''forum'', u ''topic'', u ''thread'', u ''post'', u ''reply'', u ''comment'',
          u ''discuss''}"
  proof -
    have t: "Tag cls ident children \<in> set (concat (map tags doc))"
      using h by (simp only: element_of_tag_iff)
    have x: "x \<in> set (element_classes (Tag cls ident children)) \<union>
        set (element_ids (Tag cls ident children))"
      using h by auto
    have v: "sublist v x" using h by simp
    have k: "map ascii_lower v \<in>
       {u ''forum'', u ''topic'', u ''thread'', u ''post'', u ''reply'', u ''comment'',
        u ''discuss''}"
      using h by simp
    show ?thesis
      unfolding kw [symmetric] using t x v k by (rule element_indicator)
  qed
  have no: "\<not> (\<exists>k \<in> set ?kw. sublist k (classes_and_ids rt doc))"
    if h: "\<forall>c i ch y. element_of (Tag c i ch) doc \<and>
               (i = Some y \<or> (\<exists>ts. c = Some ts \<and> y \<in> set ts)) \<longrightarrow>
               (\<forall>a \<in> set y. a < 128) \<and>
               (\<forall>k \<in> {u ''forum'', u ''topic'', u ''thread'', u ''post'', u ''reply'', u ''comment'',
          u ''discuss''}. \<not> sublist k (map ascii_lower y))"
  proof -
    have "(\<forall>a \<in> set y. a < 128) \<and> (\<forall>k \<in> {u ''forum'', u ''topic'', u ''thread'', u ''post'', u ''reply'', u ''comment'',
          u ''discuss''}. \<not> sublist k (map ascii_lower y))"
      if "y \<in> set ?toks" for y
      using token_origin [OF that] h by blast
    then have "\<not> (\<exists>k \<in> set forum_indicators. sublist k (lower rt (join (u '' '') ?toks)))"
      by (intro ascii_no_indicator) blast+
    then show ?thesis unfolding kw cai .
  qed
  have 4: "\<not> sublist (u ''mp.weixin.qq.com'') (lower rt url) \<and>
    \<not> sublist (u ''weixin.qq.com'') (lower rt url) \<longrightarrow>
      (soup rt html = Inl e \<longrightarrow> detect_html_type rt html url = Inl e) \<and>
      (soup rt html = Inr doc \<longrightarrow>
         ((\<exists>k \<in> set ?kw. sublist k (classes_and_ids rt doc)) \<longrightarrow>
            detect_html_type rt html url = Inr (u ''forum'')) \<and>
         (\<not> (\<exists>k \<in> set ?kw. sublist k (classes_and_ids rt doc)) \<longrightarrow>
            detect_html_type rt html url = Inr (u ''article'')) \<and>
         (element_of (Tag cls ident children) doc \<and>
          (ident = Some x \<or> (\<exists>ts. cls = Some ts \<and> x \<in> set ts)) \<and> sublist v x \<and>
          map ascii_lower v \<in> {u ''forum'', u ''topic'', u ''thread'', u ''post'', u ''reply'', u ''comment'',
          u ''discuss''} \<longrightarrow>
            detect_html_type rt html url = Inr (u ''forum'')) \<and>
         ((\<forall>c i ch y. element_of (Tag c i ch) doc \<and>
               (i = Some y \<or> (\<exists>ts. c = Some ts \<and> y \<in> set ts)) \<longrightarrow>
               (\<forall>a \<in> set y. a < 128) \<and>
               (\<forall>k \<in> {u ''forum'', u ''topic'', u ''thread'', u ''post'', u ''reply'', u ''comment'',
          u ''discuss''}. \<not> sublist k (map ascii_lower y))) \<longrightarrow>
            detect_html_type rt html url = Inr (u ''article'')))"
  proof (intro impI conjI)
    assume nw: "\<not> sublist (u ''mp.weixin.qq.com'') (lower rt url) \<and>
      \<not> sublist (u ''weixin.qq.com'') (lower rt url)"
    note p = page [OF nw]
    {
      assume "soup rt html = Inl e"
      then show "detect_html_type rt html url = Inl e" unfolding p by simp
    next
      assume sp: "soup rt html = Inr doc"
      {
        assume "\<exists>k \<in> set ?kw. sublist k (classes_and_ids rt doc)"
        then show "detect_html_type rt html url = Inr (u ''forum'')"
          unfolding p sp by (simp only: sum.case if_True)
      next
        assume "\<not> (\<exists>k \<in> set ?kw. sublist k (classes_and_ids rt doc))"
        then show "detect_html_type rt html url = Inr (u ''article'')"
          unfolding p sp by (simp only: sum.case if_False)
      next
        assume "element_of (Tag cls ident children) doc \<and>
          (ident = Some x \<or> (\<exists>ts. cls = Some ts \<and> x \<in> set ts)) \<and> sublist v x \<and>
          map ascii_lower v \<in> {u ''forum'', u ''topic'', u ''thread'', u ''post'', u ''reply'', u ''comment'',
          u ''discuss''}"
        then have "\<exists>k \<in> set ?kw. sublist k (classes_and_ids rt doc)" by (rule el)
        then show "detect_html_type rt html url = Inr (u ''forum'')"
          unfolding p sp by (simp only: sum.case if_True)
      next
        assume "\<forall>c i ch y. element_of (Tag c i ch) doc \<and>
               (i = Some y \<or> (\<exists>ts. c = Some ts \<and> y \<in> set ts)) \<longrightarrow>
               (\<forall>a \<in> set y. a < 128) \<and>
               (\<forall>k \<in> {u ''forum'', u ''topic'', u ''thread'', u ''post'', u ''reply'', u ''comment'',
          u ''discuss''}. \<not> sublist k (map ascii_lower y))"
        then have "\<not> (\<exists>k \<in> set ?kw. sublist k (classes_and_ids rt doc))" by (rule no)
        then show "detect_html_type rt html url = Inr (u ''article'')"
          unfolding p sp by (simp only: sum.case if_False)
      }
    }
  qed
  from 1 2 3 4 cai show ?thesis by (intro conjI)
qed

text \<open>
  A page that \<open>html.parser\<close> rejects, fetched from a URL without the domain names:
  the parser's exception leaves \<open>detect_html_type\<close>, and no label is chosen.
\<close>

theorem rejected_markup_counterexample:
  "soup rt0 rejected_html = Inl (OtherError (u ''ParserRejectedMarkup'')) \<and>
   detect_html_type rt0 rejected_html (u ''http://example.com/board'') =
     Inl (OtherError (u ''ParserRejectedMarkup'')) \<and>
   detect_html_type rt0 rejected_html (u ''http://example.com/board'') \<noteq> Inr (u ''article'') \<and>
   detect_html_type rt0 rejected_html (u ''http://example.com/board'') \<noteq> Inr (u ''forum'') \<and>
   detect_html_type rt0 rejected_html (u ''http://example.com/board'') \<noteq> Inr (u ''weixin'')"
proof -
  have "detect_html_type rt0 rejected_html (u ''http://example.com/board'') =
     Inl (OtherError (u ''ParserRejectedMarkup''))"
    by (simp add: detect_html_type_def rt0_soup(6) weixin_domains_def lower_def
        ascii_lower_def sublist_code u_def)
  then show ?thesis using rt0_soup(6) by simp
qed

theorem detect_html_type_rules_witness:
  "detect_html_type rt0 nested_html (u ''http://example.com/board'') = Inr (u ''forum'') \<and>
   detect_html_type rt0 cjk_html (u ''http://example.com/board'') = Inr (u ''forum'') \<and>
   detect_html_type rt0 page_html (u ''http://example.com/board'') = Inr (u ''article'') \<and>
   detect_html_type rt0 rejected_html (u ''http://example.com/board'') =
     Inl (OtherError (u ''ParserRejectedMarkup'')) \<and>
   detect_html_type rt0 rejected_html (u ''https://mp.weixin.qq.com/s/abc'') = Inr (u ''weixin'')"
proof -
  let ?url = "u ''http://example.com/board''"
  let ?li = "Tag None (Some (u ''Topic-7'')) [NavigableString (u ''x'')]"
  let ?nested = "[Tag None None [Tag None None [?li]]]"
  let ?p = "Tag None (Some [0x8BBA, 0x575B]) [NavigableString (u ''x'')]"
  let ?cjk = "[Tag None None [?p]]"
  let ?page = "[Tag None None [NavigableString (u ''Title'')],
          Tag None None [NavigableString (u ''Text'')]]"
  have nw: "\<not> sublist (u ''mp.weixin.qq.com'') (lower rt0 ?url) \<and>
    \<not> sublist (u ''weixin.qq.com'') (lower rt0 ?url)"
    by (simp add: lower_def ascii_lower_def sublist_code u_def)
  have el: "element_of ?li ?nested \<and>
      (Some (u ''Topic-7'') = Some (u ''Topic-7'') \<or>
       (\<exists>ts. None = Some ts \<and> u ''Topic-7'' \<in> set ts)) \<and>
      sublist (u ''Topic'') (u ''Topic-7'') \<and>
      map ascii_lower (u ''Topic'') \<in> {u ''forum'', u ''topic'', u ''thread'', u ''post'', u ''reply'', u ''comment'',
          u ''discuss''}"
  proof -
    have "element_of ?li ?nested" by (simp add: element_of_tag_iff)
    moreover have "sublist (u ''Topic'') (u ''Topic-7'')" by (simp add: u_def sublist_code)
    moreover have "map ascii_lower (u ''Topic'') \<in> {u ''forum'', u ''topic'', u ''thread'', u ''post'', u ''reply'', u ''comment'',
          u ''discuss''}"
      by (simp add: u_def ascii_lower_def)
    ultimately show ?thesis by simp
  qed
  have 1: "detect_html_type rt0 nested_html ?url = Inr (u ''forum'')"
    using detect_html_type_rules [where rt = rt0 and url = ?url and l = "[]"
        and e = "OtherError (u ''ParserRejectedMarkup'')"
        and html = nested_html and doc = ?nested and cls = None
        and ident = "Some (u ''Topic-7'')" and children = "[NavigableString (u ''x'')]"
        and x = "u ''Topic-7''" and v = "u ''Topic''",
        THEN conjunct2, THEN conjunct2, THEN conjunct2, THEN conjunct1, THEN mp, OF nw,
        THEN conjunct2, THEN mp, OF rt0_soup(3),
        THEN conjunct2, THEN conjunct2, THEN conjunct1, THEN mp, OF el] .
  have ck: "\<exists>k \<in> set [u ''forum'', u ''topic'', u ''thread'', u ''post'', u ''reply'',
                       u ''comment'', u ''discuss'', [0x8BBA, 0x575B], [0x5E16, 0x5B50],
                       [0x56DE, 0x590D], [0x8BC4, 0x8BBA], [0x8BA8, 0x8BBA]].
              sublist k (classes_and_ids rt0 ?cjk)"
  proof -
    have "classes_and_ids rt0 ?cjk = [0x8BBA, 0x575B]"
      by (simp add: classes_and_ids_def lower_def rt0_def)
    then have "sublist [0x8BBA, 0x575B] (classes_and_ids rt0 ?cjk)" by simp
    then show ?thesis by simp
  qed
  have 2: "detect_html_type rt0 cjk_html ?url = Inr (u ''forum'')"
    using detect_html_type_rules [where rt = rt0 and url = ?url and l = "[]"
        and e = "OtherError (u ''ParserRejectedMarkup'')"
        and html = cjk_html and doc = ?cjk and cls = None
        and ident = None and children = "[]"
        and x = "[]" and v = "[]",
        THEN conjunct2, THEN conjunct2, THEN conjunct2, THEN conjunct1, THEN mp, OF nw,
        THEN conjunct2, THEN mp, OF rt0_soup(4), THEN conjunct1, THEN mp, OF ck] .
  have pk: "\<not> (\<exists>k \<in> set [u ''forum'', u ''topic'', u ''thread'', u ''post'', u ''reply'',
                       u ''comment'', u ''discuss'', [0x8BBA, 0x575B], [0x5E16, 0x5B50],
                       [0x56DE, 0x590D], [0x8BC4, 0x8BBA], [0x8BA8, 0x8BBA]].
              sublist k (classes_and_ids rt0 ?page))"
  proof -
    have "classes_and_ids rt0 ?page = []"
      by (simp add: classes_and_ids_def lower_def)
    then show ?thesis by (simp add: u_def)
  qed
  have 3: "detect_html_type rt0 page_html ?url = Inr (u ''article'')"
    using detect_html_type_rules [where rt = rt0 and url = ?url and l = "[]"
        and e = "OtherError (u ''ParserRejectedMarkup'')"
        and html = page_html and doc = ?page and cls = None
        and ident = None and children = "[]"
        and x = "[]" and v = "[]",
        THEN conjunct2, THEN conjunct2, THEN conjunct2, THEN conjunct1, THEN mp, OF nw,
        THEN conjunct2, THEN mp, OF rt0_soup(1),
        THEN conjunct2, THEN conjunct1, THEN mp, OF pk] .
  have 4: "detect_html_type rt0 rejected_html ?url =
      Inl (OtherError (u ''ParserRejectedMarkup''))"
    using detect_html_type_rules [where rt = rt0 and url = ?url and l = "[]"
        and e = "OtherError (u ''ParserRejectedMarkup'')"
        and html = rejected_html and doc = "[]" and cls = None
        and ident = None and children = "[]"
        and x = "[]" and v = "[]",
        THEN conjunct2, THEN conjunct2, THEN conjunct2, THEN conjunct1, THEN mp, OF nw,
        THEN conjunct1, THEN mp, OF rt0_soup(6)] .
  have w: "sublist (u ''mp.weixin.qq.com'') (u ''https://mp.weixin.qq.com/s/abc'')"
    by (simp add: u_def sublist_code)
  have 5: "detect_html_type rt0 rejected_html (u ''https://mp.weixin.qq.com/s/abc'') =
      Inr (u ''weixin'')"
    using detect_html_type_rules [where rt = rt0 and html = rejected_html
        and url = "u ''https://mp.weixin.qq.com/s/abc''" and l = "[]"
        and e = "OtherError (u ''ParserRejectedMarkup'')" and doc = "[]" and cls = None
        and ident = None and children = "[]" and x = "[]" and v = "[]",
        THEN conjunct2, THEN conjunct1, THEN mp, OF w] .
  from 1 2 3 4 5 show ?thesis by (intro conjI)
qed

section \<open>Runs of \<open>=\<close> and image links in the markdown clean-up\<close>

lemma triple_Cons_other:
  "x \<noteq> c \<Longrightarrow> sublist [c, c, c] (x # t) \<longleftrightarrow> sublist [c, c, c] t"
  by (simp add: sublist_Cons_right)

lemma triple_Cons_same:
  "sublist [c, c, c] (c # t) \<longleftrightarrow> prefix [c, c] t \<or> sublist [c, c, c] t"
  by (simp add: sublist_Cons_right)

lemma triple_not_in_set: "c \<notin> set a \<Longrightarrow> \<not> sublist [c, c, c] a"
  using set_mono_sublist [of "[c, c, c]" a] by auto

lemma triple_block:
  assumes "set b \<subseteq> {c}" and "length b < 3" and "t = [] \<or> hd t \<noteq> c"
  shows "sublist [c, c, c] (b @ t) \<longleftrightarrow> sublist [c, c, c] t"
proof -
  have t: "\<not> prefix [c] t" using assms(3) by (cases t) auto
  then have t2: "\<not> prefix [c, c] t" by (cases t) auto
  consider "b = []" | "b = [c]" | "b = [c, c]"
  proof -
    have "b = replicate (length b) c"
      using assms(1) by (intro replicate_length_same [symmetric]) auto
    moreover have "length b = 0 \<or> length b = 1 \<or> length b = 2" using assms(2) by arith
    ultimately have "b = [] \<or> b = [c] \<or> b = [c, c]"
      by (metis One_nat_def length_0_conv numeral_2_eq_2 replicate.simps(1) replicate.simps(2))
    then show ?thesis using that by blast
  qed
  then show ?thesis
  proof cases
    case 1
    then show ?thesis by simp
  next
    case 2
    then show ?thesis using t t2 by (simp add: triple_Cons_same)
  next
    case 3
    have "sublist [c, c, c] (c # c # t) \<longleftrightarrow> sublist [c, c, c] t"
      using t t2 by (cases t) (auto simp: triple_Cons_same)
    then show ?thesis using 3 by simp
  qed
qed

lemma re_sub_run_head:
  "s = [] \<or> hd s \<noteq> c \<Longrightarrow> re_sub_run c rep s = [] \<or> hd (re_sub_run c rep s) \<noteq> c"
  by (cases s) auto

lemma re_sub_run_no_triple:
  assumes "set rep \<subseteq> {c}" and "length rep < 3"
  shows "\<not> sublist [c, c, c] (re_sub_run c rep s)"
  using assms
proof (induction c rep s rule: re_sub_run.induct)
  case (1 c rep)
  then show ?case by simp
next
  case (2 c rep x xs)
  show ?case
  proof (cases "x = c")
    case True
    let ?run = "takeWhile (\<lambda>y. y = c) (x # xs)"
    let ?rest = "dropWhile (\<lambda>y. y = c) (x # xs)"
    let ?b = "if 3 \<le> length ?run then rep else ?run"
    have ih: "\<not> sublist [c, c, c] (re_sub_run c rep ?rest)"
      using "2.IH"(1) [OF True refl refl "2.prems"] .
    have "?rest = [] \<or> hd ?rest \<noteq> c"
      using hd_dropWhile [of "\<lambda>y. y = c" "x # xs"] by blast
    then have h: "re_sub_run c rep ?rest = [] \<or> hd (re_sub_run c rep ?rest) \<noteq> c"
      by (rule re_sub_run_head)
    have b1: "set ?b \<subseteq> {c}"
      using "2.prems"(1) by (auto dest: set_takeWhileD)
    have b2: "length ?b < 3" using "2.prems"(2) by auto
    have "re_sub_run c rep (x # xs) = ?b @ re_sub_run c rep ?rest"
      using True by (simp add: Let_def)
    then show ?thesis using triple_block [OF b1 b2 h] ih by simp
  next
    case False
    then show ?thesis
      using "2.IH"(2) [OF False "2.prems"] by (simp add: triple_Cons_other)
  qed
qed

lemma sublist_strip: "sublist (strip s) s"
proof -
  let ?d = "dropWhile isspace s"
  have "prefix (rev (dropWhile isspace (rev ?d))) ?d"
    by (metis prefixI rev_append rev_rev_ident takeWhile_dropWhile_id)
  then have 1: "sublist (strip s) ?d"
    unfolding strip_def by (rule prefix_imp_sublist)
  have "suffix ?d s" by (rule suffix_dropWhile)
  then have 2: "sublist ?d s" by (rule suffix_imp_sublist)
  from 1 2 show ?thesis by (rule sublist_order.order_trans)
qed

lemma triple_split:
  "d \<noteq> c \<Longrightarrow> sublist [c, c, c] (a @ d # b) \<longleftrightarrow> sublist [c, c, c] a \<or> sublist [c, c, c] b"
proof (induction a)
  case Nil
  then show ?case by (simp add: triple_Cons_other)
next
  case (Cons x a)
  have p: "prefix [c, c, c] (x # a @ d # b) \<longleftrightarrow> prefix [c, c, c] (x # a)"
  proof (cases a)
    case Nil
    then show ?thesis using Cons.prems by auto
  next
    case (Cons y a')
    then show ?thesis using Cons.prems by (cases a') auto
  qed
  show ?case
    using Cons p by (auto simp: sublist_Cons_right)
qed

lemma re_sub_image_eq_run:
  "takeWhile (\<lambda>y. y = EQ) (re_sub_image label s) = takeWhile (\<lambda>y. y = EQ) s"
proof (induction label s rule: re_sub_image.induct)
  case (1 label)
  then show ?case by simp
next
  case (2 label x xs)
  show ?case
  proof (cases "prefix (u ''![]('') (x # xs)")
    case True
    then have x: "x = 33" by (simp add: u_def)
    have "hd (re_sub_image label (x # xs)) = 33 \<and> re_sub_image label (x # xs) \<noteq> []"
      using True x by (simp add: Let_def u_def)
    then have "takeWhile (\<lambda>y. y = EQ) (re_sub_image label (x # xs)) = []"
      by (cases "re_sub_image label (x # xs)") (auto simp: EQ_def)
    then show ?thesis using x by (simp add: EQ_def)
  next
    case False
    then show ?thesis using "2.IH"(3) [OF False] by simp
  qed
qed

lemma prefix_cc_run:
  "prefix [c, c] t \<longleftrightarrow> 2 \<le> length (takeWhile (\<lambda>y. y = c) t)"
proof (cases t)
  case Nil
  then show ?thesis by simp
next
  case (Cons a t')
  then show ?thesis by (cases t') auto
qed

lemma image_match_shape:
  assumes pre: "prefix (u ''![]('') s"
    and ne: "dropWhile (\<lambda>y. y \<noteq> RPAREN \<and> y \<noteq> NL) (drop 4 s) \<noteq> [] \<and>
       hd (dropWhile (\<lambda>y. y \<noteq> RPAREN \<and> y \<noteq> NL) (drop 4 s)) = RPAREN"
  shows "s = u ''![]('' @ takeWhile (\<lambda>y. y \<noteq> RPAREN \<and> y \<noteq> NL) (drop 4 s) @
      RPAREN # tl (dropWhile (\<lambda>y. y \<noteq> RPAREN \<and> y \<noteq> NL) (drop 4 s))"
proof -
  let ?p = "\<lambda>y. y \<noteq> RPAREN \<and> y \<noteq> NL"
  have l: "length (u ''![]('') = 4" by (simp add: u_def)
  from pre obtain r where r: "s = u ''![]('' @ r" by (auto simp: prefix_def)
  then have d: "drop 4 s = r" using l by simp
  have a: "dropWhile ?p r = RPAREN # tl (dropWhile ?p r)"
    using ne unfolding d by (cases "dropWhile ?p r") auto
  have "r = takeWhile ?p r @ dropWhile ?p r" by simp
  then have "r = takeWhile ?p r @ RPAREN # tl (dropWhile ?p r)" using a by simp
  then show ?thesis unfolding d using r by simp
qed

lemma no_triple_sublist:
  "sublist a b \<Longrightarrow> \<not> sublist [c, c, c] b \<Longrightarrow> \<not> sublist [c, c, c] a"
  using sublist_order.order_trans by blast

lemma no_triple_parts:
  assumes "\<not> sublist [EQ, EQ, EQ] (p @ g @ RPAREN # r)"
  shows "\<not> sublist [EQ, EQ, EQ] g" and "\<not> sublist [EQ, EQ, EQ] r"
proof -
  have "sublist g (p @ g @ RPAREN # r)" unfolding sublist_def by blast
  then show "\<not> sublist [EQ, EQ, EQ] g" using assms by (rule no_triple_sublist)
  have "p @ g @ RPAREN # r = (p @ g @ [RPAREN]) @ r @ []" by simp
  then have "sublist r (p @ g @ RPAREN # r)" unfolding sublist_def by blast
  then show "\<not> sublist [EQ, EQ, EQ] r" using assms by (rule no_triple_sublist)
qed

lemma image_output_no_triple:
  assumes l: "EQ \<notin> set label" and g: "\<not> sublist [EQ, EQ, EQ] g"
    and r: "\<not> sublist [EQ, EQ, EQ] r"
  shows "\<not> sublist [EQ, EQ, EQ] (u ''!['' @ label @ u '']('' @ g @ [RPAREN] @ r)"
proof -
  have ne: "(40::nat) \<noteq> EQ" "RPAREN \<noteq> EQ" by (simp_all add: EQ_def RPAREN_def)
  have h: "\<not> sublist [EQ, EQ, EQ] (u ''!['' @ label @ u '']'')"
    using l by (intro triple_not_in_set) (simp add: u_def EQ_def)
  have t: "\<not> sublist [EQ, EQ, EQ] (g @ RPAREN # r)"
    using g r ne(2) by (simp add: triple_split)
  have e: "u ''!['' @ label @ u '']('' @ g @ [RPAREN] @ r =
      (u ''!['' @ label @ u '']'') @ 40 # (g @ RPAREN # r)"
    by (simp add: u_def)
  show ?thesis unfolding e using h t ne(1) triple_split [of 40 EQ] by blast
qed

lemma re_sub_image_no_triple:
  assumes "EQ \<notin> set label" and "\<not> sublist [EQ, EQ, EQ] s"
  shows "\<not> sublist [EQ, EQ, EQ] (re_sub_image label s)"
  using assms
proof (induction label s rule: re_sub_image.induct)
  case (1 label)
  then show ?case by simp
next
  case (2 label x xs)
  define body where "body = drop 4 (x # xs)"
  define grp where "grp = takeWhile (\<lambda>y. y \<noteq> RPAREN \<and> y \<noteq> NL) body"
  define after where "after = dropWhile (\<lambda>y. y \<noteq> RPAREN \<and> y \<noteq> NL) body"
  note defs = body_def grp_def after_def
  have unf: "re_sub_image label (x # xs) =
     (if prefix (u ''![]('') (x # xs) \<and> after \<noteq> [] \<and> hd after = RPAREN
      then u ''!['' @ label @ u ''](''  @ grp @ [RPAREN] @ re_sub_image label (tl after)
      else x # re_sub_image label xs)"
    unfolding defs by (simp only: re_sub_image.simps Let_def split: if_splits) simp
  show ?case
  proof (cases "prefix (u ''![]('') (x # xs) \<and> after \<noteq> [] \<and> hd after = RPAREN")
    case True
    then have pre: "prefix (u ''![]('') (x # xs)" and ne: "after \<noteq> [] \<and> hd after = RPAREN"
      by simp_all
    have s: "x # xs = u ''![]('' @ grp @ RPAREN # tl after"
      unfolding defs by (rule image_match_shape [OF pre]) (use ne in \<open>simp add: defs\<close>)
    have p: "\<not> sublist [EQ, EQ, EQ] (u ''![]('' @ grp @ RPAREN # tl after)"
      using "2.prems"(2) unfolding s [symmetric] .
    have 1: "\<not> sublist [EQ, EQ, EQ] (tl after)" and 2: "\<not> sublist [EQ, EQ, EQ] grp"
      using no_triple_parts [OF p] by blast+
    have 3: "\<not> sublist [EQ, EQ, EQ] (re_sub_image label (tl after))"
      using "2.IH"(1) [OF pre body_def grp_def after_def ne "2.prems"(1) 1] .
    have out: "re_sub_image label (x # xs) =
        u ''!['' @ label @ u '']('' @ grp @ [RPAREN] @ re_sub_image label (tl after)"
      unfolding unf using True by (rule if_P)
    show ?thesis
      unfolding out by (rule image_output_no_triple [OF "2.prems"(1) 2 3])
  next
    case False
    have out: "re_sub_image label (x # xs) = x # re_sub_image label xs"
      unfolding unf using False by (rule if_not_P)
    have xs: "\<not> sublist [EQ, EQ, EQ] xs"
      using "2.prems"(2) by (auto simp: sublist_Cons_right)
    have ih: "\<not> sublist [EQ, EQ, EQ] (re_sub_image label xs)"
    proof (cases "prefix (u ''![]('') (x # xs)")
      case True
      with False have n: "\<not> (after \<noteq> [] \<and> hd after = RPAREN)" by simp
      show ?thesis using "2.IH"(2) [OF True body_def grp_def after_def n "2.prems"(1) xs] .
    next
      case False
      show ?thesis using "2.IH"(3) [OF False "2.prems"(1) xs] .
    qed
    show ?thesis
    proof (cases "x = EQ")
      case True
      have "\<not> prefix [EQ, EQ] xs"
        using "2.prems"(2) True by (simp add: triple_Cons_same)
      then have "\<not> prefix [EQ, EQ] (re_sub_image label xs)"
        by (simp add: prefix_cc_run re_sub_image_eq_run)
      then show ?thesis using ih True out by (simp add: triple_Cons_same)
    next
      case False
      then show ?thesis using ih out by (simp add: triple_Cons_other)
    qed
  qed
qed

lemma clean_markdown_no_eq_run: "\<not> sublist [EQ, EQ, EQ] (clean_markdown s)"
proof -
  define t2 where "t2 = join [NL] (map strip (split_str [NL] (re_sub_run NL [NL, NL] s)))"
  have 3: "\<not> sublist [EQ, EQ, EQ] (re_sub_run EQ [] t2)"
    by (rule re_sub_run_no_triple) simp_all
  have "EQ \<notin> set image_label" by (simp add: image_label_def EQ_def)
  then have 4: "\<not> sublist [EQ, EQ, EQ] (re_sub_image image_label (re_sub_run EQ [] t2))"
    using 3 by (rule re_sub_image_no_triple)
  have "clean_markdown s = strip (re_sub_image image_label (re_sub_run EQ [] t2))"
    unfolding clean_markdown_def Let_def t2_def by (rule refl)
  then have "sublist (clean_markdown s) (re_sub_image image_label (re_sub_run EQ [] t2))"
    by (simp only: sublist_strip)
  then show ?thesis using 4 by (rule no_triple_sublist)
qed

lemma re_sub_run_same:
  "re_sub_run c rep (c # xs) =
     (if 3 \<le> length (takeWhile (\<lambda>y. y = c) (c # xs)) then rep
      else takeWhile (\<lambda>y. y = c) (c # xs)) @
     re_sub_run c rep (dropWhile (\<lambda>y. y = c) (c # xs))"
  by (simp only: re_sub_run.simps Let_def simp_thms if_True)

lemma re_sub_run_append:
  assumes "a = [] \<or> last a \<noteq> c"
  shows "re_sub_run c rep (a @ t) = re_sub_run c rep a @ re_sub_run c rep t"
  using assms
proof (induction c rep a rule: re_sub_run.induct)
  case (1 c rep)
  then show ?case by simp
next
  case (2 c rep x xs)
  have last: "last (x # xs) \<noteq> c" using "2.prems" by simp
  show ?case
  proof (cases "x = c")
    case True
    let ?p = "\<lambda>y. y = c"
    have ex: "\<exists>y \<in> set (x # xs). \<not> ?p y"
      using last last_in_set [of "x # xs"] by blast
    then obtain y where y: "y \<in> set (x # xs)" "\<not> ?p y" by blast
    have tk: "takeWhile ?p ((x # xs) @ t) = takeWhile ?p (x # xs)"
      using y by (rule takeWhile_append1)
    have dr: "dropWhile ?p ((x # xs) @ t) = dropWhile ?p (x # xs) @ t"
      using y by (rule dropWhile_append1)
    define rest where "rest = dropWhile ?p (x # xs)"
    have ne: "rest \<noteq> []"
      unfolding rest_def using ex by (simp only: dropWhile_eq_Nil_conv) blast
    have "suffix rest (x # xs)" unfolding rest_def by (rule suffix_dropWhile)
    then obtain q where "x # xs = q @ rest" by (auto simp: suffix_def)
    then have "last (x # xs) = last rest" using ne by simp
    then have lr: "rest = [] \<or> last rest \<noteq> c" using last by simp
    have ih: "re_sub_run c rep (rest @ t) = re_sub_run c rep rest @ re_sub_run c rep t"
      using "2.IH"(1) [OF True refl refl, folded rest_def, OF lr] .
    have l: "re_sub_run c rep ((x # xs) @ t) =
        (if 3 \<le> length (takeWhile ?p (x # xs)) then rep else takeWhile ?p (x # xs)) @
        re_sub_run c rep (rest @ t)"
      using re_sub_run_same [of c rep "xs @ t"] tk dr
      unfolding True rest_def by (simp only: append_Cons)
    have r: "re_sub_run c rep (x # xs) =
        (if 3 \<le> length (takeWhile ?p (x # xs)) then rep else takeWhile ?p (x # xs)) @
        re_sub_run c rep rest"
      using re_sub_run_same [of c rep xs] unfolding True rest_def .
    show ?thesis unfolding l r ih by simp
  next
    case False
    have "xs = [] \<or> last xs \<noteq> c" using last by (cases xs) auto
    from "2.IH"(2) [OF False this] show ?thesis using False by simp
  qed
qed

lemma re_sub_run_replicate:
  assumes "3 \<le> n" and "b = [] \<or> hd b \<noteq> c"
  shows "re_sub_run c rep (replicate n c @ b) = rep @ re_sub_run c rep b"
proof -
  let ?p = "\<lambda>y. y = c"
  obtain m where n: "n = Suc m" using assms(1) by (cases n) auto
  have b: "takeWhile ?p b = []" "dropWhile ?p b = b"
    using assms(2) by (cases b; simp)+
  have "takeWhile ?p (replicate n c @ b) = replicate n c @ takeWhile ?p b"
    by (rule takeWhile_append2) simp
  then have tk: "takeWhile ?p (replicate n c @ b) = replicate n c"
    using b by simp
  have "dropWhile ?p (replicate n c @ b) = dropWhile ?p b"
    by (rule dropWhile_append2) simp
  then have dr: "dropWhile ?p (replicate n c @ b) = b"
    using b by simp
  have "replicate n c @ b = c # (replicate m c @ b)" using n by simp
  then have "re_sub_run c rep (replicate n c @ b) =
      (if 3 \<le> length (takeWhile ?p (replicate n c @ b)) then rep
       else takeWhile ?p (replicate n c @ b)) @
      re_sub_run c rep (dropWhile ?p (replicate n c @ b))"
    using re_sub_run_same [of c rep "replicate m c @ b"] by simp
  then show ?thesis unfolding tk dr using assms(1) by simp
qed

lemma re_sub_run_deletes:
  assumes "3 \<le> n" and "a = [] \<or> last a \<noteq> EQ" and "b = [] \<or> hd b \<noteq> EQ"
  shows "re_sub_run EQ [] (a @ replicate n EQ @ b) = re_sub_run EQ [] a @ re_sub_run EQ [] b"
  using re_sub_run_append [OF assms(2)] re_sub_run_replicate [OF assms(1) assms(3)] by simp

lemma re_sub_image_unlabelled_only:
  "\<not> sublist (u ''![]('') s \<Longrightarrow> re_sub_image label s = s"
proof (induction s)
  case Nil
  then show ?case by simp
next
  case (Cons x xs)
  have p: "\<not> prefix (u ''![]('') (x # xs)"
    using Cons.prems prefix_imp_sublist by blast
  have "\<not> sublist (u ''![]('') xs"
    using Cons.prems by (auto simp: sublist_Cons_right)
  then have "re_sub_image label xs = xs" by (rule Cons.IH)
  then show ?case using p by simp
qed

lemma re_sub_image_match:
  assumes "RPAREN \<notin> set g" and "NL \<notin> set g"
  shows "re_sub_image label (u ''![]('' @ g @ RPAREN # rest) =
     u ''!['' @ label @ u '']('' @ g @ RPAREN # re_sub_image label rest"
proof -
  let ?p = "\<lambda>y. y \<noteq> RPAREN \<and> y \<noteq> NL"
  let ?s = "u ''![]('' @ g @ RPAREN # rest"
  have c: "?s = 33 # (u ''[]('' @ g @ RPAREN # rest)" by (simp add: u_def)
  have pre: "prefix (u ''![]('') (33 # (u ''[]('' @ g @ RPAREN # rest))"
    unfolding c [symmetric] by simp
  have d: "drop 4 (33 # (u ''[]('' @ g @ RPAREN # rest)) = g @ RPAREN # rest"
    by (simp add: u_def)
  have "takeWhile ?p (g @ RPAREN # rest) = g @ takeWhile ?p (RPAREN # rest)"
    by (rule takeWhile_append2) (use assms in auto)
  then have tk: "takeWhile ?p (g @ RPAREN # rest) = g" by simp
  have "dropWhile ?p (g @ RPAREN # rest) = dropWhile ?p (RPAREN # rest)"
    by (rule dropWhile_append2) (use assms in auto)
  then have dr: "dropWhile ?p (g @ RPAREN # rest) = RPAREN # rest" by simp
  have "re_sub_image label (33 # (u ''[]('' @ g @ RPAREN # rest)) =
      u ''!['' @ label @ u '']('' @ g @ [RPAREN] @ re_sub_image label rest"
    using pre by (simp only: re_sub_image.simps Let_def d tk dr if_True) simp
  then show ?thesis unfolding c by simp
qed


lemma re_sub_run_absent: "c \<notin> set w \<Longrightarrow> re_sub_run c rep w = w"
  by (induction w) auto

lemma re_sub_run_short:
  assumes "n < 3" and "b = [] \<or> hd b \<noteq> c"
  shows "re_sub_run c rep (replicate n c @ b) = replicate n c @ re_sub_run c rep b"
proof (cases n)
  case 0
  then show ?thesis by simp
next
  case (Suc m)
  let ?p = "\<lambda>y. y = c"
  have b: "takeWhile ?p b = []" "dropWhile ?p b = b"
    using assms(2) by (cases b; simp)+
  have "takeWhile ?p (replicate n c @ b) = replicate n c @ takeWhile ?p b"
    by (rule takeWhile_append2) simp
  then have tk: "takeWhile ?p (replicate n c @ b) = replicate n c"
    using b by simp
  have "dropWhile ?p (replicate n c @ b) = dropWhile ?p b"
    by (rule dropWhile_append2) simp
  then have dr: "dropWhile ?p (replicate n c @ b) = b"
    using b by simp
  have "replicate n c @ b = c # (replicate m c @ b)" using Suc by simp
  then have "re_sub_run c rep (replicate n c @ b) =
      (if 3 \<le> length (takeWhile ?p (replicate n c @ b)) then rep
       else takeWhile ?p (replicate n c @ b)) @
      re_sub_run c rep (dropWhile ?p (replicate n c @ b))"
    using re_sub_run_same [of c rep "replicate m c @ b"] by simp
  then show ?thesis unfolding tk dr using assms(1) by simp
qed

lemma re_sub_run_keeps:
  assumes "n < 3" and "a = [] \<or> last a \<noteq> EQ" and "b = [] \<or> hd b \<noteq> EQ"
  shows "re_sub_run EQ [] (a @ replicate n EQ @ b) =
     re_sub_run EQ [] a @ replicate n EQ @ re_sub_run EQ [] b"
  using re_sub_run_append [OF assms(2)] re_sub_run_short [OF assms(1) assms(3)] by simp

lemma re_sub_run_no_run: "\<not> sublist [c, c, c] s \<Longrightarrow> re_sub_run c rep s = s"
proof (induction c rep s rule: re_sub_run.induct)
  case (1 c rep)
  then show ?case by simp
next
  case (2 c rep x xs)
  show ?case
  proof (cases "x = c")
    case True
    let ?p = "\<lambda>y. y = c"
    define run where "run = takeWhile ?p (x # xs)"
    define rest where "rest = dropWhile ?p (x # xs)"
    have s: "x # xs = run @ rest" unfolding run_def rest_def by simp
    have all: "\<forall>y \<in> set run. y = c"
      unfolding run_def using set_takeWhileD by fastforce
    then have rep: "replicate (length run) c = run" by (rule replicate_length_same)
    have short: "\<not> 3 \<le> length run"
    proof
      assume "3 \<le> length run"
      then obtain k where "length run = 3 + k" using le_Suc_ex by blast
      then have "run = [c, c, c] @ replicate k c"
        using rep by (simp add: numeral_3_eq_3)
      then have "x # xs = [] @ [c, c, c] @ (replicate k c @ rest)" using s by simp
      then have "sublist [c, c, c] (x # xs)" unfolding sublist_def by blast
      then show False using "2.prems" by simp
    qed
    have "sublist rest (x # xs)" unfolding s by simp
    then have "\<not> sublist [c, c, c] rest" using "2.prems" by (rule no_triple_sublist)
    then have ih: "re_sub_run c rep rest = rest"
      using "2.IH"(1) [OF True refl refl] unfolding rest_def by simp
    have "re_sub_run c rep (x # xs) =
        (if 3 \<le> length run then rep else run) @ re_sub_run c rep rest"
      using re_sub_run_same [of c rep xs] unfolding True run_def rest_def .
    then show ?thesis using short ih s by simp
  next
    case False
    then have "\<not> sublist [c, c, c] xs" using "2.prems" by (simp add: triple_Cons_other)
    from "2.IH"(2) [OF False this] show ?thesis using False by simp
  qed
qed

lemma split_str_single: "NL \<notin> set s \<Longrightarrow> split_str [NL] s = [s]"
  by (induction s) auto

lemma strip_id: "s \<noteq> [] \<Longrightarrow> \<not> isspace (hd s) \<Longrightarrow> \<not> isspace (last s) \<Longrightarrow> strip s = s"
proof -
  assume s: "s \<noteq> []" and h: "\<not> isspace (hd s)" and l: "\<not> isspace (last s)"
  have 1: "dropWhile isspace s = s" using h by (simp add: dropWhile_eq_self_iff)
  have "hd (rev s) = last s" using s by (simp add: hd_rev)
  then have 2: "dropWhile isspace (rev s) = rev s" using l by (simp add: dropWhile_eq_self_iff)
  show ?thesis unfolding strip_def 1 2 by simp
qed

lemma strip_idem: "strip (strip s) = strip s"
proof -
  define d where "d = dropWhile isspace s"
  define e where "e = dropWhile isspace (rev d)"
  have st: "strip s = rev e" unfolding strip_def d_def e_def by (rule refl)
  show ?thesis
  proof (cases "e = []")
    case True
    then show ?thesis unfolding st by (simp add: strip_def)
  next
    case False
    then have he: "\<not> isspace (hd e)" unfolding e_def by (rule hd_dropWhile)
    have d: "d \<noteq> []" using False unfolding e_def by auto
    then have hd: "\<not> isspace (hd d)" unfolding d_def by (rule hd_dropWhile)
    have "suffix e (rev d)" unfolding e_def by (rule suffix_dropWhile)
    then obtain q where "rev d = q @ e" by (auto simp: suffix_def)
    then have "last (rev d) = last e" using False by simp
    then have le: "\<not> isspace (last e)" using hd d by (simp add: last_rev)
    have "strip (rev e) = rev e"
      using False he le by (intro strip_id) (simp_all add: hd_rev last_rev)
    then show ?thesis unfolding st .
  qed
qed

lemma clean_markdown_line:
  assumes "NL \<notin> set s"
  shows "clean_markdown s = strip (re_sub_image image_label (re_sub_run EQ [] (strip s)))"
proof -
  have 1: "re_sub_run NL [NL, NL] s = s" using assms by (rule re_sub_run_absent)
  have 2: "split_str [NL] s = [s]" using assms by (rule split_str_single)
  show ?thesis unfolding clean_markdown_def Let_def 1 2 by simp
qed

lemma clean_markdown_run_between:
  assumes a: "a \<noteq> []" and b: "b \<noteq> []"
    and ha: "\<not> isspace (hd a)" and lb: "\<not> isspace (last b)"
    and cs: "\<forall>c \<in> set (a @ b). c \<noteq> NL \<and> c \<noteq> 33 \<and> c \<noteq> EQ"
  shows "clean_markdown (a @ replicate n EQ @ b) =
     (if 3 \<le> n then a @ b else a @ replicate n EQ @ b)"
proof -
  let ?s = "a @ replicate n EQ @ b"
  have ne: "EQ \<noteq> NL" "EQ \<noteq> 33" by (simp_all add: EQ_def NL_def)
  have nl: "NL \<notin> set ?s" using cs ne by auto
  have bang: "33 \<notin> set ?s" "33 \<notin> set (a @ b)" using cs ne by auto
  have st: "strip ?s = ?s" using a b ha lb by (intro strip_id) simp_all
  have st2: "strip (a @ b) = a @ b" using a b ha lb by (intro strip_id) simp_all
  have la: "a = [] \<or> last a \<noteq> EQ" using cs a last_in_set [of a] by auto
  have hb: "b = [] \<or> hd b \<noteq> EQ" using cs b hd_in_set [of b] by auto
  have ra: "re_sub_run EQ [] a = a" using cs by (intro re_sub_run_absent) auto
  have rb: "re_sub_run EQ [] b = b" using cs by (intro re_sub_run_absent) auto
  have cm: "clean_markdown ?s = strip (re_sub_image image_label (re_sub_run EQ [] ?s))"
    using clean_markdown_line [OF nl] unfolding st .
  show ?thesis
  proof (cases "3 \<le> n")
    case True
    have "re_sub_run EQ [] ?s = a @ b"
      using re_sub_run_deletes [OF True la hb] unfolding ra rb .
    moreover have "re_sub_image image_label (a @ b) = a @ b"
      using bang(2) by (rule re_sub_image_no_bang)
    ultimately show ?thesis using True cm st2 by simp
  next
    case False
    then have "n < 3" by simp
    then have "re_sub_run EQ [] ?s = ?s"
      using re_sub_run_keeps [OF _ la hb] unfolding ra rb by simp
    moreover have "re_sub_image image_label ?s = ?s"
      using bang(1) by (rule re_sub_image_no_bang)
    ultimately show ?thesis using False cm st by simp
  qed
qed

lemma clean_markdown_line_plain:
  assumes nl: "NL \<notin> set t" and eq: "\<not> sublist [EQ, EQ, EQ] t"
    and im: "\<not> sublist (u ''![]('') t"
  shows "clean_markdown t = strip t"
proof -
  have s: "sublist (strip t) t" by (rule sublist_strip)
  have "\<not> sublist [EQ, EQ, EQ] (strip t)" using s eq by (rule no_triple_sublist)
  then have 1: "re_sub_run EQ [] (strip t) = strip t" by (rule re_sub_run_no_run)
  have "\<not> sublist (u ''![]('') (strip t)"
    using s im sublist_order.order_trans by blast
  then have 2: "re_sub_image image_label (strip t) = strip t"
    by (rule re_sub_image_unlabelled_only)
  show ?thesis unfolding clean_markdown_line [OF nl] 1 2 by (rule strip_idem)
qed

lemma target_run_free:
  assumes "\<not> sublist [EQ, EQ, EQ] g"
  shows "\<not> sublist [EQ, EQ, EQ] (p @ 40 # g @ [RPAREN]) \<longleftrightarrow> \<not> sublist [EQ, EQ, EQ] p"
proof -
  have ne: "(40::nat) \<noteq> EQ" "RPAREN \<noteq> EQ" by (simp_all add: EQ_def RPAREN_def)
  have "sublist [EQ, EQ, EQ] (g @ RPAREN # []) \<longleftrightarrow>
      sublist [EQ, EQ, EQ] g \<or> sublist [EQ, EQ, EQ] []"
    using ne(2) by (rule triple_split)
  then have g: "\<not> sublist [EQ, EQ, EQ] (g @ [RPAREN])" using assms by simp
  have "sublist [EQ, EQ, EQ] (p @ 40 # (g @ [RPAREN])) \<longleftrightarrow>
      sublist [EQ, EQ, EQ] p \<or> sublist [EQ, EQ, EQ] (g @ [RPAREN])"
    using ne(1) by (rule triple_split)
  then show ?thesis using g by simp
qed

lemma clean_markdown_unlabelled:
  assumes rp: "RPAREN \<notin> set g" and nl: "NL \<notin> set g" and eq: "\<not> sublist [EQ, EQ, EQ] g"
  shows "clean_markdown (u ''![]('' @ g @ [RPAREN]) =
     u ''!['' @ image_label @ u '']('' @ g @ [RPAREN]"
proof -
  let ?s = "u ''![]('' @ g @ [RPAREN]"
  let ?o = "u ''!['' @ image_label @ u '']('' @ g @ [RPAREN]"
  have sp: "\<not> isspace 33" "\<not> isspace RPAREN" by (simp_all add: isspace_def RPAREN_def)
  have n: "NL \<notin> set ?s" using nl by (simp add: u_def NL_def RPAREN_def)
  have st: "strip ?s = ?s" using sp by (intro strip_id) (simp_all add: u_def)
  have so: "strip ?o = ?o" using sp by (intro strip_id) (simp_all add: u_def)
  have "\<not> sublist [EQ, EQ, EQ] (u ''![]'' @ 40 # g @ [RPAREN])"
    unfolding target_run_free [OF eq]
    by (rule triple_not_in_set) (simp add: u_def EQ_def)
  then have "\<not> sublist [EQ, EQ, EQ] ?s" by (simp add: u_def)
  then have 1: "re_sub_run EQ [] ?s = ?s" by (rule re_sub_run_no_run)
  have 2: "re_sub_image image_label ?s = ?o"
    using re_sub_image_match [OF rp nl, of image_label "[]"] by simp
  show ?thesis unfolding clean_markdown_line [OF n] st 1 2 so by (rule refl)
qed

lemma clean_markdown_run_label:
  assumes n: "3 \<le> n" and rp: "RPAREN \<notin> set g" and nl: "NL \<notin> set g"
    and eq: "\<not> sublist [EQ, EQ, EQ] g"
  shows "clean_markdown (u ''!['' @ replicate n EQ @ u '']('' @ g @ [RPAREN]) =
     u ''!['' @ image_label @ u '']('' @ g @ [RPAREN]"
proof -
  let ?a = "u ''![''"
  let ?b = "u '']('' @ g @ [RPAREN]"
  let ?s = "?a @ replicate n EQ @ ?b"
  let ?m = "u ''![]('' @ g @ [RPAREN]"
  let ?o = "u ''!['' @ image_label @ u '']('' @ g @ [RPAREN]"
  have sp: "\<not> isspace 33" "\<not> isspace RPAREN" by (simp_all add: isspace_def RPAREN_def)
  have nn: "NL \<notin> set ?s" using nl by (simp add: u_def NL_def RPAREN_def EQ_def)
  have st: "strip ?s = ?s" using sp by (intro strip_id) (simp_all add: u_def)
  have so: "strip ?o = ?o" using sp by (intro strip_id) (simp_all add: u_def)
  have la: "?a = [] \<or> last ?a \<noteq> EQ" by (simp add: u_def EQ_def)
  have hb: "?b = [] \<or> hd ?b \<noteq> EQ" by (simp add: u_def EQ_def)
  have ra: "re_sub_run EQ [] ?a = ?a"
    by (rule re_sub_run_absent) (simp add: u_def EQ_def)
  have "\<not> sublist [EQ, EQ, EQ] (u '']'' @ 40 # g @ [RPAREN])"
    unfolding target_run_free [OF eq]
    by (rule triple_not_in_set) (simp add: u_def EQ_def)
  then have "\<not> sublist [EQ, EQ, EQ] ?b" by (simp add: u_def)
  then have rb: "re_sub_run EQ [] ?b = ?b" by (rule re_sub_run_no_run)
  have ab: "?a @ ?b = ?m" by (simp add: u_def)
  have 1: "re_sub_run EQ [] ?s = ?m"
    using re_sub_run_deletes [OF n la hb] unfolding ra rb ab .
  have 2: "re_sub_image image_label ?m = ?o"
    using re_sub_image_match [OF rp nl, of image_label "[]"] by simp
  show ?thesis unfolding clean_markdown_line [OF nn] st 1 2 so by (rule refl)
qed

text \<open>
  C10 (amended). No output of \<open>clean_markdown\<close> contains \<open>===\<close>. The deletion step
  removes a run of three or more \<open>=\<close> whatever surrounds it and keeps the text on both
  sides; a run of one or two is kept; a text without \<open>=\<close> is unchanged. On a line
  \<open>a ===...= b\<close> whose parts have no \<open>=\<close>, \<open>!\<close> or newline and no outer whitespace the
  whole clean-up returns \<open>a b\<close> joined, or the line itself when the run is shorter
  than three. The image rewrite comes after the deletion and reads its result: a text
  without \<open>![](\<close> is left as it is by the rewrite, a line with neither \<open>===\<close> nor
  \<open>![](\<close> is only trimmed, and \<open>![](target)\<close> becomes the same link with the label
  U+56FE U+7247; so does \<open>![===...=](target)\<close>, whose label is empty only once the
  run is deleted.
\<close>

theorem clean_markdown_eq_runs_and_images:
  "\<not> sublist [61, 61, 61] (clean_markdown s) \<and>
   (3 \<le> n \<and> (a = [] \<or> last a \<noteq> 61) \<and> (b = [] \<or> hd b \<noteq> 61) \<longrightarrow>
      re_sub_run 61 [] (a @ replicate n 61 @ b) = re_sub_run 61 [] a @ re_sub_run 61 [] b) \<and>
   (n < 3 \<and> (a = [] \<or> last a \<noteq> 61) \<and> (b = [] \<or> hd b \<noteq> 61) \<longrightarrow>
      re_sub_run 61 [] (a @ replicate n 61 @ b) =
        re_sub_run 61 [] a @ replicate n 61 @ re_sub_run 61 [] b) \<and>
   (61 \<notin> set a \<longrightarrow> re_sub_run 61 [] a = a) \<and>
   (a \<noteq> [] \<and> b \<noteq> [] \<and> \<not> isspace (hd a) \<and> \<not> isspace (last b) \<and>
    (\<forall>c \<in> set (a @ b). c \<noteq> 10 \<and> c \<noteq> 33 \<and> c \<noteq> 61) \<longrightarrow>
      clean_markdown (a @ replicate n 61 @ b) =
        (if 3 \<le> n then a @ b else a @ replicate n 61 @ b)) \<and>
   (\<not> sublist (u ''![]('') t \<longrightarrow> re_sub_image image_label t = t) \<and>
   (10 \<notin> set t \<and> \<not> sublist [61, 61, 61] t \<and> \<not> sublist (u ''![]('') t \<longrightarrow>
      clean_markdown t = strip t) \<and>
   (41 \<notin> set g \<and> 10 \<notin> set g \<longrightarrow>
      re_sub_image image_label (u ''![]('' @ g @ 41 # rest) =
        u ''!['' @ [0x56FE, 0x7247] @ u '']('' @ g @ 41 # re_sub_image image_label rest) \<and>
   (41 \<notin> set g \<and> 10 \<notin> set g \<and> \<not> sublist [61, 61, 61] g \<longrightarrow>
      clean_markdown (u ''![]('' @ g @ [41]) =
        u ''!['' @ [0x56FE, 0x7247] @ u '']('' @ g @ [41]) \<and>
   (3 \<le> n \<and> 41 \<notin> set g \<and> 10 \<notin> set g \<and> \<not> sublist [61, 61, 61] g \<longrightarrow>
      clean_markdown (u ''!['' @ replicate n 61 @ u '']('' @ g @ [41]) =
        u ''!['' @ [0x56FE, 0x7247] @ u '']('' @ g @ [41])"
proof -
  have 1: "\<not> sublist [61, 61, 61] (clean_markdown s)"
    using clean_markdown_no_eq_run [of s] unfolding EQ_def .
  have 2: "3 \<le> n \<and> (a = [] \<or> last a \<noteq> 61) \<and> (b = [] \<or> hd b \<noteq> 61) \<longrightarrow>
      re_sub_run 61 [] (a @ replicate n 61 @ b) = re_sub_run 61 [] a @ re_sub_run 61 [] b"
    using re_sub_run_deletes [of n a b] unfolding EQ_def by blast
  have 3: "n < 3 \<and> (a = [] \<or> last a \<noteq> 61) \<and> (b = [] \<or> hd b \<noteq> 61) \<longrightarrow>
      re_sub_run 61 [] (a @ replicate n 61 @ b) =
        re_sub_run 61 [] a @ replicate n 61 @ re_sub_run 61 [] b"
    using re_sub_run_keeps [of n a b] unfolding EQ_def by blast
  have 4: "61 \<notin> set a \<longrightarrow> re_sub_run 61 [] a = a"
    using re_sub_run_absent [of 61 a "[]"] by blast
  have 5: "a \<noteq> [] \<and> b \<noteq> [] \<and> \<not> isspace (hd a) \<and> \<not> isspace (last b) \<and>
    (\<forall>c \<in> set (a @ b). c \<noteq> 10 \<and> c \<noteq> 33 \<and> c \<noteq> 61) \<longrightarrow>
      clean_markdown (a @ replicate n 61 @ b) =
        (if 3 \<le> n then a @ b else a @ replicate n 61 @ b)"
    using clean_markdown_run_between [of a b n] unfolding EQ_def NL_def by blast
  have 6: "\<not> sublist (u ''![]('') t \<longrightarrow> re_sub_image image_label t = t"
    using re_sub_image_unlabelled_only [of t image_label] by blast
  have 7: "10 \<notin> set t \<and> \<not> sublist [61, 61, 61] t \<and> \<not> sublist (u ''![]('') t \<longrightarrow>
      clean_markdown t = strip t"
    using clean_markdown_line_plain [of t] unfolding EQ_def NL_def by blast
  have 8: "41 \<notin> set g \<and> 10 \<notin> set g \<longrightarrow>
      re_sub_image image_label (u ''![]('' @ g @ 41 # rest) =
        u ''!['' @ [0x56FE, 0x7247] @ u '']('' @ g @ 41 # re_sub_image image_label rest"
    using re_sub_image_match [of g image_label rest]
    unfolding RPAREN_def NL_def image_label_def by blast
  have 9: "41 \<notin> set g \<and> 10 \<notin> set g \<and> \<not> sublist [61, 61, 61] g \<longrightarrow>
      clean_markdown (u ''![]('' @ g @ [41]) =
        u ''!['' @ [0x56FE, 0x7247] @ u '']('' @ g @ [41]"
    using clean_markdown_unlabelled [of g]
    unfolding RPAREN_def NL_def EQ_def image_label_def by blast
  have 10: "3 \<le> n \<and> 41 \<notin> set g \<and> 10 \<notin> set g \<and> \<not> sublist [61, 61, 61] g \<longrightarrow>
      clean_markdown (u ''!['' @ replicate n 61 @ u '']('' @ g @ [41]) =
        u ''!['' @ [0x56FE, 0x7247] @ u '']('' @ g @ [41]"
    using clean_markdown_run_label [of n g]
    unfolding RPAREN_def NL_def EQ_def image_label_def by blast
  from 1 2 3 4 5 6 7 8 9 10 show ?thesis by (intro conjI)
qed

text \<open>
  The link \<open>![===](x.png)\<close> has the label \<open>===\<close>, and the rewrite alone leaves it as
  it is; the clean-up deletes the label and then rewrites the link, which comes out
  with the placeholder label.
\<close>

theorem run_label_counterexample:
  "\<not> sublist (u ''![]('') (u ''![===](x.png)'') \<and>
   re_sub_image image_label (u ''![===](x.png)'') = u ''![===](x.png)'' \<and>
   clean_markdown (u ''![===](x.png)'') = u ''!['' @ [0x56FE, 0x7247] @ u ''](x.png)''"
proof -
  have 1: "\<not> sublist (u ''![]('') (u ''![===](x.png)'')"
    by (simp add: u_def sublist_code)
  then have 2: "re_sub_image image_label (u ''![===](x.png)'') = u ''![===](x.png)''"
    by (rule re_sub_image_unlabelled_only)
  have 3: "clean_markdown (u ''![===](x.png)'') = u ''!['' @ [0x56FE, 0x7247] @ u ''](x.png)''"
    by (simp add: clean_markdown_def u_def NL_def EQ_def RPAREN_def strip_def isspace_def
        image_label_def)
  from 1 2 3 show ?thesis by (intro conjI)
qed

theorem clean_markdown_eq_runs_and_images_witness:
  "re_sub_run 61 [] (u ''http://e.com/?q'' @ replicate 4 61 @ u ''1'') = u ''http://e.com/?q1'' \<and>
   clean_markdown (u ''http://e.com/?q'' @ replicate 4 61 @ u ''1'') = u ''http://e.com/?q1'' \<and>
   clean_markdown (u ''x '' @ replicate 2 61 @ u '' y'') = u ''x == y'' \<and>
   clean_markdown (u '' ![alt](j.png) '') = u ''![alt](j.png)'' \<and>
   re_sub_image image_label (u ''![]('' @ u ''i.png'' @ 41 # u '' ![alt](j.png)'') =
     u ''!['' @ [0x56FE, 0x7247] @ u '']('' @ u ''i.png'' @ 41 # u '' ![alt](j.png)'' \<and>
   clean_markdown (u ''![]('' @ u ''i.png'' @ [41]) =
     u ''!['' @ [0x56FE, 0x7247] @ u '']('' @ u ''i.png'' @ [41] \<and>
   clean_markdown (u ''!['' @ replicate 3 61 @ u '']('' @ u ''i.png'' @ [41]) =
     u ''!['' @ [0x56FE, 0x7247] @ u '']('' @ u ''i.png'' @ [41]"
proof -
  have h1: "(3::nat) \<le> 4 \<and> (u ''http://e.com/?q'' = [] \<or> last (u ''http://e.com/?q'') \<noteq> 61) \<and>
      (u ''1'' = [] \<or> hd (u ''1'') \<noteq> 61)"
    by (simp add: u_def)
  have ha: "61 \<notin> set (u ''http://e.com/?q'')" by (simp add: u_def)
  have hb: "61 \<notin> set (u ''1'')" by (simp add: u_def)
  have ea: "re_sub_run 61 [] (u ''http://e.com/?q'') = u ''http://e.com/?q''"
    using clean_markdown_eq_runs_and_images [where s = "[]" and n = 4
      and a = "u ''http://e.com/?q''" and b = "u ''1''" and t = "u '' ![alt](j.png) ''"
      and g = "u ''i.png''" and rest = "u '' ![alt](j.png)''",
      THEN conjunct2, THEN conjunct2, THEN conjunct2, THEN conjunct1, THEN mp, OF ha] .
  have eb: "re_sub_run 61 [] (u ''1'') = u ''1''"
    using clean_markdown_eq_runs_and_images [where s = "[]" and n = 4
      and a = "u ''1''" and b = "u ''1''" and t = "u '' ![alt](j.png) ''"
      and g = "u ''i.png''" and rest = "u '' ![alt](j.png)''",
      THEN conjunct2, THEN conjunct2, THEN conjunct2, THEN conjunct1, THEN mp, OF hb] .
  have ab: "u ''http://e.com/?q'' @ u ''1'' = u ''http://e.com/?q1''" by (simp add: u_def)
  have 1: "re_sub_run 61 [] (u ''http://e.com/?q'' @ replicate 4 61 @ u ''1'') =
      u ''http://e.com/?q1''"
    using clean_markdown_eq_runs_and_images [where s = "[]" and n = 4
      and a = "u ''http://e.com/?q''" and b = "u ''1''" and t = "u '' ![alt](j.png) ''"
      and g = "u ''i.png''" and rest = "u '' ![alt](j.png)''",
      THEN conjunct2, THEN conjunct1, THEN mp, OF h1] unfolding ea eb ab .
  have h2: "u ''http://e.com/?q'' \<noteq> [] \<and> u ''1'' \<noteq> [] \<and>
      \<not> isspace (hd (u ''http://e.com/?q'')) \<and> \<not> isspace (last (u ''1'')) \<and>
      (\<forall>c \<in> set (u ''http://e.com/?q'' @ u ''1''). c \<noteq> 10 \<and> c \<noteq> 33 \<and> c \<noteq> 61)"
    by (simp add: u_def isspace_def)
  have 2: "clean_markdown (u ''http://e.com/?q'' @ replicate 4 61 @ u ''1'') =
      u ''http://e.com/?q1''"
    using clean_markdown_eq_runs_and_images [where s = "[]" and n = 4
      and a = "u ''http://e.com/?q''" and b = "u ''1''" and t = "u '' ![alt](j.png) ''"
      and g = "u ''i.png''" and rest = "u '' ![alt](j.png)''",
      THEN conjunct2, THEN conjunct2, THEN conjunct2, THEN conjunct2, THEN conjunct1, THEN mp, OF h2] unfolding ab by simp
  have h3: "u ''x '' \<noteq> [] \<and> u '' y'' \<noteq> [] \<and>
      \<not> isspace (hd (u ''x '')) \<and> \<not> isspace (last (u '' y'')) \<and>
      (\<forall>c \<in> set (u ''x '' @ u '' y''). c \<noteq> 10 \<and> c \<noteq> 33 \<and> c \<noteq> 61)"
    by (simp add: u_def isspace_def)
  have xy: "u ''x '' @ replicate 2 61 @ u '' y'' = u ''x == y''"
    by (simp add: u_def numeral_2_eq_2)
  have "clean_markdown (u ''x '' @ replicate 2 61 @ u '' y'') =
      u ''x '' @ replicate 2 61 @ u '' y''"
    using clean_markdown_eq_runs_and_images [where s = "[]" and n = 2
      and a = "u ''x ''" and b = "u '' y''" and t = "u '' ![alt](j.png) ''"
      and g = "u ''i.png''" and rest = "u '' ![alt](j.png)''",
      THEN conjunct2, THEN conjunct2, THEN conjunct2, THEN conjunct2, THEN conjunct1, THEN mp, OF h3] by simp
  then have 3: "clean_markdown (u ''x '' @ replicate 2 61 @ u '' y'') = u ''x == y''"
    unfolding xy [symmetric] .
  have h4: "10 \<notin> set (u '' ![alt](j.png) '') \<and>
      \<not> sublist [61, 61, 61] (u '' ![alt](j.png) '') \<and>
      \<not> sublist (u ''![]('') (u '' ![alt](j.png) '')"
    by (simp add: u_def sublist_code)
  have s4: "strip (u '' ![alt](j.png) '') = u ''![alt](j.png)''"
    by (simp add: strip_def u_def isspace_def)
  have 4: "clean_markdown (u '' ![alt](j.png) '') = u ''![alt](j.png)''"
    using clean_markdown_eq_runs_and_images [where s = "[]" and n = 4
      and a = "u ''http://e.com/?q''" and b = "u ''1''" and t = "u '' ![alt](j.png) ''"
      and g = "u ''i.png''" and rest = "u '' ![alt](j.png)''",
      THEN conjunct2, THEN conjunct2, THEN conjunct2, THEN conjunct2, THEN conjunct2, THEN conjunct2, THEN conjunct1, THEN mp, OF h4] unfolding s4 .
  have h5: "\<not> sublist (u ''![]('') (u '' ![alt](j.png)'')"
    by (simp add: u_def sublist_code)
  have e5: "re_sub_image image_label (u '' ![alt](j.png)'') = u '' ![alt](j.png)''"
    using clean_markdown_eq_runs_and_images [where s = "[]" and n = 4
      and a = "u ''http://e.com/?q''" and b = "u ''1''" and t = "u '' ![alt](j.png)''"
      and g = "u ''i.png''" and rest = "u '' ![alt](j.png)''",
      THEN conjunct2, THEN conjunct2, THEN conjunct2, THEN conjunct2, THEN conjunct2, THEN conjunct1, THEN mp, OF h5] .
  have hg: "41 \<notin> set (u ''i.png'') \<and> 10 \<notin> set (u ''i.png'')"
    by (simp add: u_def)
  have 5: "re_sub_image image_label (u ''![]('' @ u ''i.png'' @ 41 # u '' ![alt](j.png)'') =
     u ''!['' @ [0x56FE, 0x7247] @ u '']('' @ u ''i.png'' @ 41 # u '' ![alt](j.png)''"
    using clean_markdown_eq_runs_and_images [where s = "[]" and n = 4
      and a = "u ''http://e.com/?q''" and b = "u ''1''" and t = "u '' ![alt](j.png) ''"
      and g = "u ''i.png''" and rest = "u '' ![alt](j.png)''",
      THEN conjunct2, THEN conjunct2, THEN conjunct2, THEN conjunct2, THEN conjunct2, THEN conjunct2, THEN conjunct2, THEN conjunct1, THEN mp, OF hg] unfolding e5 .
  have hg2: "41 \<notin> set (u ''i.png'') \<and> 10 \<notin> set (u ''i.png'') \<and>
      \<not> sublist [61, 61, 61] (u ''i.png'')"
    by (simp add: u_def sublist_code)
  have 6: "clean_markdown (u ''![]('' @ u ''i.png'' @ [41]) =
     u ''!['' @ [0x56FE, 0x7247] @ u '']('' @ u ''i.png'' @ [41]"
    using clean_markdown_eq_runs_and_images [where s = "[]" and n = 4
      and a = "u ''http://e.com/?q''" and b = "u ''1''" and t = "u '' ![alt](j.png) ''"
      and g = "u ''i.png''" and rest = "u '' ![alt](j.png)''",
      THEN conjunct2, THEN conjunct2, THEN conjunct2, THEN conjunct2, THEN conjunct2, THEN conjunct2, THEN conjunct2, THEN conjunct2, THEN conjunct1, THEN mp, OF hg2] .
  have hg3: "(3::nat) \<le> 3 \<and> 41 \<notin> set (u ''i.png'') \<and> 10 \<notin> set (u ''i.png'') \<and>
      \<not> sublist [61, 61, 61] (u ''i.png'')"
    by (simp add: u_def sublist_code)
  have 7: "clean_markdown (u ''!['' @ replicate 3 61 @ u '']('' @ u ''i.png'' @ [41]) =
     u ''!['' @ [0x56FE, 0x7247] @ u '']('' @ u ''i.png'' @ [41]"
    using clean_markdown_eq_runs_and_images [where s = "[]" and n = 3
      and a = "u ''http://e.com/?q''" and b = "u ''1''" and t = "u '' ![alt](j.png) ''"
      and g = "u ''i.png''" and rest = "u '' ![alt](j.png)''",
      THEN conjunct2, THEN conjunct2, THEN conjunct2, THEN conjunct2, THEN conjunct2, THEN conjunct2, THEN conjunct2, THEN conjunct2, THEN conjunct2, THEN mp, OF hg3] .
  from 1 2 3 4 5 6 7 show ?thesis by (intro conjI)
qed

end
